theory Spec2Isabelle
  imports Main "HOL-Library.Char_ord" "HOL-Library.List_Lexorder" "HOL-Library.Sublist"
begin

section \<open>Alert identity: \<^verbatim>\<open>key\<close> (alertstate.go)\<close>

text \<open>
  A \<^verbatim>\<open>models.LabelSet\<close> is a Go \<^verbatim>\<open>map[string]string\<close>. Indexing a Go map at an absent key
  yields the zero value, the empty string. A nil map and an empty map both have length 0
  and both are the map \<open>Map.empty\<close> here. A Go map has finitely many keys.
\<close>

type_synonym LabelSet = "string \<rightharpoonup> string"

definition index :: "LabelSet \<Rightarrow> string \<Rightarrow> string" where
  "index labels k = (case labels k of None \<Rightarrow> [] | Some v \<Rightarrow> v)"

text \<open>
  The loop \<^verbatim>\<open>for i, k := range keys\<close> of \<^verbatim>\<open>key\<close>, writing into the
  \<^verbatim>\<open>strings.Builder\<close> \<open>b\<close>: a comma before every pair but the first, then
  \<^verbatim>\<open>k\<close>, \<^verbatim>\<open>=\<close> and \<^verbatim>\<open>labels[k]\<close>.
\<close>

fun write_pairs :: "LabelSet \<Rightarrow> nat \<Rightarrow> string list \<Rightarrow> string \<Rightarrow> string" where
  "write_pairs labels i [] b = b"
| "write_pairs labels i (k # keys) b =
     write_pairs labels (Suc i) keys
       (((if i > 0 then b @ '','' else b) @ k) @ ''='' @ index labels k)"

text \<open>
  \<^verbatim>\<open>for k := range labels\<close> visits the keys of the map in an order that Go leaves
  unspecified. \<open>key_range visited labels\<close> is \<^verbatim>\<open>key(labels)\<close> when the range loop visits the
  keys in the order \<open>visited\<close>; \<^verbatim>\<open>sort.Strings\<close> orders strings bytewise, which is the
  lexicographic order on \<open>char list\<close>.
\<close>

definition key_range :: "string list \<Rightarrow> LabelSet \<Rightarrow> string" where
  "key_range visited labels =
     (if dom labels = {} then ''''
      else write_pairs labels 0 (sort visited) '''')"

text \<open>\<^verbatim>\<open>key\<close> with the keys visited in ascending order; by the order independence proved
  below, any other visiting order gives the same string.\<close>

definition key :: "LabelSet \<Rightarrow> string" where
  "key labels = key_range (sorted_list_of_set (dom labels)) labels"


section \<open>The debounce store: \<^verbatim>\<open>Manager\<close> (alertstate.go)\<close>

text \<open>
  Instants (\<^verbatim>\<open>time.Time\<close>) are points of one time line, counted in nanoseconds. A
  \<^verbatim>\<open>time.Duration\<close> is an \<^verbatim>\<open>int64\<close> count of nanoseconds; \<^verbatim>\<open>time.Since(first)\<close> is
  \<^verbatim>\<open>time.Now().Sub(first)\<close>, which returns the difference when a Duration can hold it and
  the minimum or maximum Duration otherwise.
\<close>

type_synonym time = int
type_synonym duration = int

definition minDuration :: duration where
  "minDuration = - (2 ^ 63)"

definition maxDuration :: duration where
  "maxDuration = 2 ^ 63 - 1"

definition Since :: "time \<Rightarrow> time \<Rightarrow> duration" where
  "Since now first = max minDuration (min maxDuration (now - first))"

text \<open>
  The clock is an oracle: \<open>clk n\<close> is what the clock shows when it is read for the
  \<open>n\<close>-th time, by \<^verbatim>\<open>time.Now()\<close> or by \<^verbatim>\<open>time.Since\<close>. Code that reads the clock takes
  the number of readings made so far and returns it updated.
\<close>

type_synonym clock = "nat \<Rightarrow> time"

text \<open>
  \<^verbatim>\<open>Manager.state\<close> is a \<^verbatim>\<open>map[string]time.Time\<close> from identity to first-seen instant.
  The mutex serialises the calls; one call is one step here. \<^verbatim>\<open>flushLocked\<close> writes the
  mapping to the file and changes nothing in memory; the error it returns is what
  \<^verbatim>\<open>MarkActive\<close> and \<^verbatim>\<open>MarkResolved\<close> return, and \<^verbatim>\<open>main\<close> discards it. The embedding
  keeps the in-memory mapping, the only part that \<^verbatim>\<open>ShouldFire\<close> reads.
\<close>

record Manager =
  state :: "string \<rightharpoonup> time"
  filePath :: string

definition NewManager :: "string \<Rightarrow> Manager" where
  "NewManager path = \<lparr>state = Map.empty, filePath = path\<rparr>"

definition MarkActive :: "clock \<Rightarrow> string \<Rightarrow> nat \<times> Manager \<Rightarrow> nat \<times> Manager" where
  "MarkActive clk k = (\<lambda>(n, m).
     if state m k = None then (Suc n, m\<lparr>state := (state m)(k \<mapsto> clk n)\<rparr>)
     else (n, m))"

definition MarkResolved :: "string \<Rightarrow> nat \<times> Manager \<Rightarrow> nat \<times> Manager" where
  "MarkResolved k = (\<lambda>(n, m).
     if state m k \<noteq> None then (n, m\<lparr>state := (state m)(k := None)\<rparr>)
     else (n, m))"

definition ShouldFire :: "clock \<Rightarrow> string \<Rightarrow> duration \<Rightarrow> nat \<times> Manager \<Rightarrow> bool \<times> nat \<times> Manager" where
  "ShouldFire clk k forDuration = (\<lambda>(n, m).
     case state m k of
       None \<Rightarrow> (False, n, m)
     | Some first \<Rightarrow> (forDuration \<le> Since (clk n) first, Suc n, m))"

text \<open>
  \<^verbatim>\<open>Load\<close> depends on the file system and on \<^verbatim>\<open>encoding/json\<close>. \<open>readFile\<close> is what
  \<^verbatim>\<open>os.ReadFile\<close> answers for a path; \<open>unmarshal data st\<close> is the error, if any, of
  \<^verbatim>\<open>json.Unmarshal(data, &m.state)\<close> together with the mapping it leaves behind. A
  malformed file is one for which \<open>unmarshal\<close> answers an error. A file that holds the
  JSON value \<^verbatim>\<open>null\<close> would leave the Go map nil, and the first \<^verbatim>\<open>MarkActive\<close> that writes
  to it would panic; the mapping here is never nil.
\<close>

datatype error = ErrNotExist | ErrRead string | ErrUnmarshal string

type_synonym file_system = "string \<Rightarrow> error + string"
type_synonym json_decoder = "string \<Rightarrow> (string \<rightharpoonup> time) \<Rightarrow> error option \<times> (string \<rightharpoonup> time)"

definition Load :: "file_system \<Rightarrow> json_decoder \<Rightarrow> Manager \<Rightarrow> error option \<times> Manager" where
  "Load readFile unmarshal m =
     (case readFile (filePath m) of
        Inl ErrNotExist \<Rightarrow> (None, m)
      | Inl err \<Rightarrow> (Some err, m)
      | Inr data \<Rightarrow>
          (case unmarshal data (state m) of (err, st) \<Rightarrow> (err, m\<lparr>state := st\<rparr>)))"

text \<open>A sequence of calls on the store, for statements about what may come between two calls.\<close>

datatype store_call =
  CallMarkActive string
| CallMarkResolved string
| CallShouldFire string duration

fun call :: "clock \<Rightarrow> store_call \<Rightarrow> nat \<times> Manager \<Rightarrow> nat \<times> Manager" where
  "call clk (CallMarkActive k) s = MarkActive clk k s"
| "call clk (CallMarkResolved k) s = MarkResolved k s"
| "call clk (CallShouldFire k d) s = snd (ShouldFire clk k d s)"

section \<open>One evaluation of a rule (main.go)\<close>

record AlertRule =
  Name :: string
  Query :: string
  EvaluateFreq :: duration
  LabelCols :: "string list"
  AnnotationCols :: "string list"
  For :: duration

text \<open>
  The structs of the Alertmanager client that \<^verbatim>\<open>main\<close> reads and writes.
  \<^verbatim>\<open>models.PostableAlert\<close> and \<^verbatim>\<open>models.GettableAlert\<close> both embed \<^verbatim>\<open>models.Alert\<close>, so that
  \<^verbatim>\<open>a.Labels\<close> is \<open>Labels (alert a)\<close>. \<^verbatim>\<open>EndsAt\<close> of a PostableAlert is a
  \<^verbatim>\<open>strfmt.DateTime\<close> whose zero value (left out of the request) is \<open>None\<close>;
  \<^verbatim>\<open>StartsAt\<close> of a GettableAlert is a pointer, \<open>None\<close> when nil. The fields of a
  GettableAlert that \<^verbatim>\<open>main\<close> never reads (fingerprint, receivers, status, end and
  update instants) are left out.
\<close>

record Alert =
  Labels :: LabelSet
  GeneratorURL :: string

record PostableAlert =
  Annotations :: LabelSet
  EndsAt :: "time option"
  StartsAt :: time
  alert :: Alert

record GettableAlert =
  gAnnotations :: LabelSet
  gStartsAt :: "time option"
  gAlert :: Alert

text \<open>
  \<^verbatim>\<open>models.PostableAlerts\<close> is a slice of pointers: \<^verbatim>\<open>filteredAlerts\<close> holds the very
  objects that \<^verbatim>\<open>firingAlerts\<close> holds, and an assignment through one slice shows through the
  other. Objects live in a heap, a pointer is an index into it, and \<^verbatim>\<open>&models.PostableAlert{...}\<close>
  allocates at the end.
\<close>

type_synonym ptr = nat
type_synonym heap = "PostableAlert list"

definition new :: "PostableAlert \<Rightarrow> heap \<Rightarrow> ptr \<times> heap" where
  "new a h = (length h, h @ [a])"

record cycle =
  heap :: heap
  firingAlerts :: "ptr list"
  filteredAlerts :: "ptr list"
  reads :: nat
  store :: Manager

text \<open>
  What the database answers: \<^verbatim>\<open>QueryContext\<close> fails, \<^verbatim>\<open>Columns\<close> fails, or rows are
  scanned. \<open>Rows cols raws failed\<close> gives the column names, the \<^verbatim>\<open>sql.RawBytes\<close> of every
  row that was scanned (\<open>None\<close> for NULL) and whether a \<^verbatim>\<open>Scan\<close> or \<^verbatim>\<open>rows.Err()\<close> error
  ended the iteration: the function literal then returns, and the alerts appended so far
  stay in \<^verbatim>\<open>firingAlerts\<close>.
\<close>

datatype query_result =
  QueryError
| ColumnsError
| Rows "string list" "string option list list" bool

definition row_of :: "string list \<Rightarrow> string option list \<Rightarrow> LabelSet" where
  "row_of cols raw =
     fold (\<lambda>(col, v) row. row(col \<mapsto> (case v of None \<Rightarrow> [] | Some bytes \<Rightarrow> bytes)))
       (zip cols raw) Map.empty"

definition pick :: "LabelSet \<Rightarrow> string list \<Rightarrow> LabelSet" where
  "pick row cols =
     fold (\<lambda>col m. let val = index row col in if val \<noteq> [] then m(col \<mapsto> val) else m)
       cols Map.empty"

text \<open>The annotation and label maps that the body of \<^verbatim>\<open>for rows.Next()\<close> builds from one row.\<close>

definition annotations_of :: "AlertRule \<Rightarrow> string list \<Rightarrow> string option list \<Rightarrow> LabelSet" where
  "annotations_of r cols raw = pick (row_of cols raw) (AnnotationCols r)"

definition labels_of :: "AlertRule \<Rightarrow> string list \<Rightarrow> string option list \<Rightarrow> LabelSet" where
  "labels_of r cols raw = (pick (row_of cols raw) (LabelCols r))(''alertname'' \<mapsto> Name r)"

fun rows_loop :: "AlertRule \<Rightarrow> clock \<Rightarrow> string list \<Rightarrow> string option list list \<Rightarrow> cycle \<Rightarrow> cycle" where
  "rows_loop r clk cols [] c = c"
| "rows_loop r clk cols (raw # rest) c =
     (let annotations = annotations_of r cols raw;
          labels = labels_of r cols raw;
          (p, h) = new \<lparr>Annotations = annotations, EndsAt = None, StartsAt = clk (reads c),
                        alert = \<lparr>Labels = labels, GeneratorURL = []\<rparr>\<rparr> (heap c)
      in rows_loop r clk cols rest
           (c\<lparr>heap := h, firingAlerts := firingAlerts c @ [p], reads := Suc (reads c)\<rparr>))"

definition run_query :: "AlertRule \<Rightarrow> clock \<Rightarrow> query_result \<Rightarrow> cycle \<Rightarrow> cycle" where
  "run_query r clk q c =
     (case q of
        QueryError \<Rightarrow> c
      | ColumnsError \<Rightarrow> c
      | Rows cols raws failed \<Rightarrow> rows_loop r clk cols raws c)"

text \<open>Lines 248 to 255: mark every firing alert active and keep those past the threshold.\<close>

fun filter_loop :: "AlertRule \<Rightarrow> clock \<Rightarrow> ptr list \<Rightarrow> cycle \<Rightarrow> cycle" where
  "filter_loop r clk [] c = c"
| "filter_loop r clk (p # ps) c =
     (let k = key (Labels (alert (heap c ! p)));
          (fire, n, m) = ShouldFire clk k (For r) (MarkActive clk k (reads c, store c));
          c' = c\<lparr>reads := n, store := m\<rparr>
      in filter_loop r clk ps
           (if fire then c'\<lparr>filteredAlerts := filteredAlerts c' @ [p]\<rparr> else c'))"

text \<open>
  Lines 288 to 309. The inner loop stops at the first firing alert whose labels are
  deeply equal to those of the existing alert. \<^verbatim>\<open>reflect.DeepEqual\<close> tells a nil map from
  an empty one, which equality of maps does not; the labels of a firing alert always
  hold \<^verbatim>\<open>alertname\<close>, so neither a nil nor an empty map is deeply equal to them, and
  \<open>Map.empty\<close> is not equal to them either.
  \<^verbatim>\<open>*existing.StartsAt\<close> panics on a nil pointer, which ends the process.
\<close>

fun find_firing :: "heap \<Rightarrow> LabelSet \<Rightarrow> ptr list \<Rightarrow> ptr option" where
  "find_firing h labels [] = None"
| "find_firing h labels (p # ps) =
     (if labels = Labels (alert (h ! p)) then Some p else find_firing h labels ps)"

datatype 'a completion = Normal 'a | NilPanic 'a

fun existing_loop :: "clock \<Rightarrow> GettableAlert list \<Rightarrow> cycle \<Rightarrow> cycle completion" where
  "existing_loop clk [] c = Normal c"
| "existing_loop clk (existing # rest) c =
     (case find_firing (heap c) (Labels (gAlert existing)) (firingAlerts c) of
        Some p \<Rightarrow>
          (case gStartsAt existing of
             None \<Rightarrow> NilPanic c
           | Some starts \<Rightarrow>
               existing_loop clk rest (c\<lparr>heap := (heap c)[p := (heap c ! p)\<lparr>StartsAt := starts\<rparr>]\<rparr>))
      | None \<Rightarrow>
          (case gStartsAt existing of
             None \<Rightarrow> NilPanic c
           | Some starts \<Rightarrow>
               (let (p, h) = new \<lparr>Annotations = Map.empty, EndsAt = Some (clk (reads c)),
                                   StartsAt = starts, alert = gAlert existing\<rparr> (heap c);
                    (n, m) = MarkResolved (key (Labels (gAlert existing))) (Suc (reads c), store c)
                in existing_loop clk rest
                     (c\<lparr>heap := h, filteredAlerts := filteredAlerts c @ [p], reads := n, store := m\<rparr>))))"

text \<open>
  One pass through the \<^verbatim>\<open>case <-ticker.C\<close> branch. \<open>fetch\<close> is what \<^verbatim>\<open>GetAlerts\<close>
  answers. The answer of \<^verbatim>\<open>PostAlerts\<close> only chooses the log line, so the outcome records the
  batch that was posted: the objects that the pointers of \<^verbatim>\<open>filteredAlerts\<close> lead to when
  the request is sent. The two \<^verbatim>\<open>return\<close> statements at lines 238 and 274 stand outside
  every function literal, in the body of the goroutine. A pass is taken on its own: no
  call of another rule's goroutine on the store comes between its steps.
\<close>

datatype fetch_result = GetError | Payload "GettableAlert list"

record tick_input =
  query :: query_result
  fetch :: fetch_result

datatype outcome =
  ReturnNoAlerts
| ReturnGetFailed
| Panicked
| Posted "PostableAlert list"

definition start_cycle :: "nat \<times> Manager \<Rightarrow> cycle" where
  "start_cycle = (\<lambda>(n, m).
     \<lparr>heap = [], firingAlerts = [], filteredAlerts = [], reads = n, store = m\<rparr>)"

definition tick :: "AlertRule \<Rightarrow> clock \<Rightarrow> tick_input \<Rightarrow> nat \<times> Manager \<Rightarrow> outcome \<times> nat \<times> Manager" where
  "tick r clk inp s =
     (let c = run_query r clk (query inp) (start_cycle s)
      in if length (firingAlerts c) = 0 then (ReturnNoAlerts, reads c, store c)
         else
           (let c = filter_loop r clk (firingAlerts c) c
            in case fetch inp of
                 GetError \<Rightarrow> (ReturnGetFailed, reads c, store c)
               | Payload existingAlerts \<Rightarrow>
                   (case existing_loop clk existingAlerts c of
                      NilPanic c \<Rightarrow> (Panicked, reads c, store c)
                    | Normal c \<Rightarrow>
                        (Posted (map (\<lambda>p. heap c ! p) (filteredAlerts c)), reads c, store c))))"

text \<open>
  The goroutine of a rule: \<^verbatim>\<open>select\<close> takes either \<^verbatim>\<open>ctx.Done()\<close> or a tick. A run is
  the list of what \<^verbatim>\<open>select\<close> took; when the list is exhausted the goroutine is blocked in
  \<^verbatim>\<open>select\<close>. The result gives how the run ended, the batches posted, and the clock
  count and store at the end.
\<close>

datatype event = Done | Tick tick_input

datatype loop_end =
  Waiting
| RuleStopped
| Exited outcome

fun rule_loop :: "AlertRule \<Rightarrow> clock \<Rightarrow> event list \<Rightarrow> nat \<times> Manager
    \<Rightarrow> loop_end \<times> PostableAlert list list \<times> nat \<times> Manager" where
  "rule_loop r clk [] s = (Waiting, [], s)"
| "rule_loop r clk (Done # evs) s = (RuleStopped, [], s)"
| "rule_loop r clk (Tick inp # evs) s =
     (case tick r clk inp s of
        (Posted batch, s') \<Rightarrow>
          (case rule_loop r clk evs s' of (e, posts, s'') \<Rightarrow> (e, batch # posts, s''))
      | (out, s') \<Rightarrow> (Exited out, [], s'))"

section \<open>Startup (main.go, lines 60 to 116)\<close>

text \<open>
  What \<^verbatim>\<open>main\<close> does before it starts the goroutines, as far as it decides whether the
  process goes on: the state file is loaded, then the configuration is opened and parsed
  and the database opened and pinged. \<^verbatim>\<open>log.Fatalf\<close> ends the process; \<^verbatim>\<open>slog.Error\<close>
  writes a line and returns.
\<close>

record environment =
  readFile :: file_system
  unmarshal :: json_decoder
  configOpens :: bool
  configParses :: bool
  dbOpens :: bool
  dbPings :: bool

datatype startup =
  Fatal string
| Started Manager "string list"

definition main_startup :: "environment \<Rightarrow> string \<Rightarrow> startup" where
  "main_startup env statePath =
     (let (err, store) = Load (readFile env) (unmarshal env) (NewManager statePath);
          logged = (if err \<noteq> None then [''error loading state file''] else [])
      in if \<not> configOpens env then Fatal ''error opening config file''
         else if \<not> configParses env then Fatal ''error parsing yaml''
         else if \<not> dbOpens env then Fatal ''error opening connection''
         else if \<not> dbPings env then Fatal ''DB connection test failed''
         else Started store logged)"

section \<open>Notions for stating the properties\<close>

text \<open>
  The cycle as it stands when \<^verbatim>\<open>GetAlerts\<close> is called (after lines 142 to 255):
  \<^verbatim>\<open>firingAlerts\<close> holds one alert for every row scanned, the condition instances of the
  cycle, and \<^verbatim>\<open>filteredAlerts\<close> those that passed \<^verbatim>\<open>ShouldFire\<close>, the candidate-submit set.
\<close>

definition candidate_cycle :: "AlertRule \<Rightarrow> clock \<Rightarrow> query_result \<Rightarrow> nat \<times> Manager \<Rightarrow> cycle" where
  "candidate_cycle r clk q s =
     (let c = run_query r clk q (start_cycle s) in filter_loop r clk (firingAlerts c) c)"

text \<open>The label mappings of the condition instances of a cycle, in row order.\<close>

definition condition_labels :: "AlertRule \<Rightarrow> query_result \<Rightarrow> LabelSet list" where
  "condition_labels r q =
     (case q of Rows cols raws failed \<Rightarrow> map (labels_of r cols) raws | _ \<Rightarrow> [])"

text \<open>
  The two branches of the body of \<^verbatim>\<open>for _, existing := range existingAlerts\<close> as state
  updates: the assignment through \<^verbatim>\<open>firingAlerts[idx]\<close> when a firing alert was found, and
  the append with \<^verbatim>\<open>MarkResolved\<close> when none was.
\<close>

definition found_upd :: "ptr \<Rightarrow> time \<Rightarrow> cycle \<Rightarrow> cycle" where
  "found_upd p t c = c\<lparr>heap := (heap c)[p := (heap c ! p)\<lparr>StartsAt := t\<rparr>]\<rparr>"

definition resolve_upd :: "clock \<Rightarrow> GettableAlert \<Rightarrow> time \<Rightarrow> cycle \<Rightarrow> cycle" where
  "resolve_upd clk e t c =
     c\<lparr>heap := heap c @ [\<lparr>Annotations = Map.empty, EndsAt = Some (clk (reads c)),
                               StartsAt = t, alert = gAlert e\<rparr>],
           filteredAlerts := filteredAlerts c @ [length (heap c)],
           reads := Suc (reads c),
           store := (store c)\<lparr>state := (state (store c))(key (Labels (gAlert e)) := None)\<rparr>\<rparr>"

text \<open>Every pointer of \<^verbatim>\<open>firingAlerts\<close> leads to an object of the heap.\<close>

definition valid :: "cycle \<Rightarrow> bool" where
  "valid c = (\<forall>p\<in>set (firingAlerts c). p < length (heap c))"

text \<open>The existing alerts for which the inner loop finds no firing alert.\<close>

definition unmatched :: "cycle \<Rightarrow> GettableAlert list \<Rightarrow> GettableAlert list" where
  "unmatched c es =
     filter (\<lambda>e. find_firing (heap c) (Labels (gAlert e)) (firingAlerts c) = None) es"

section \<open>Concrete inputs\<close>

text \<open>A clock that advances by one second at every reading, from the instant 0.\<close>

definition seconds :: clock where
  "seconds n = int n * 1000000000"

text \<open>A file system without the state file, and one whose state file is cut short; a
  decoder that accepts the empty object and reports a syntax error for anything else,
  leaving the mapping as it was.\<close>

definition missing_file :: file_system where
  "missing_file path = Inl ErrNotExist"

definition broken_file :: file_system where
  "broken_file path = Inr ''{''"

definition strict_decoder :: json_decoder where
  "strict_decoder data st =
     (if data = ''{}'' then (None, st)
      else (Some (ErrUnmarshal ''unexpected end of JSON input''), st))"

definition fresh_env :: environment where
  "fresh_env = \<lparr>readFile = missing_file, unmarshal = strict_decoder,
     configOpens = True, configParses = True, dbOpens = True, dbPings = True\<rparr>"

definition broken_state_env :: environment where
  "broken_state_env = \<lparr>readFile = broken_file, unmarshal = strict_decoder,
     configOpens = True, configParses = True, dbOpens = True, dbPings = True\<rparr>"

text \<open>
  A rule on disk usage with one label column and one annotation column, firing at once
  (\<open>disk_rule\<close>) or after two minutes (\<open>slow_rule\<close>); query results of one row and of two
  rows for the same host; alerts that the backend holds for that host and for another.
\<close>

definition disk_rule :: AlertRule where
  "disk_rule = \<lparr>Name = ''disk'', Query = ''SELECT host, summary FROM disks WHERE used > 90'',
     EvaluateFreq = 60000000000, LabelCols = [''host''], AnnotationCols = [''summary''],
     For = 0\<rparr>"

definition slow_rule :: AlertRule where
  "slow_rule = disk_rule\<lparr>For := 120000000000\<rparr>"

definition db1_labels :: LabelSet where
  "db1_labels = [''host'' \<mapsto> ''db1'', ''alertname'' \<mapsto> ''disk'']"

definition db2_labels :: LabelSet where
  "db2_labels = [''host'' \<mapsto> ''db2'', ''alertname'' \<mapsto> ''disk'']"

definition no_rows :: query_result where
  "no_rows = Rows [''host'', ''summary''] [] False"

definition one_row :: query_result where
  "one_row = Rows [''host'', ''summary''] [[Some ''db1'', Some ''full'']] False"

definition two_rows :: query_result where
  "two_rows = Rows [''host'', ''summary'']
     [[Some ''db1'', Some ''full''], [Some ''db1'', Some ''nearly full'']] False"

definition active_db1 :: GettableAlert where
  "active_db1 = \<lparr>gAnnotations = [''summary'' \<mapsto> ''full''], gStartsAt = Some 40000000000,
     gAlert = \<lparr>Labels = db1_labels, GeneratorURL = []\<rparr>\<rparr>"

definition active_db2 :: GettableAlert where
  "active_db2 = \<lparr>gAnnotations = [''summary'' \<mapsto> ''full''], gStartsAt = Some 50000000000,
     gAlert = \<lparr>Labels = db2_labels, GeneratorURL = []\<rparr>\<rparr>"

text \<open>The store of a process that has just started, and the clock read a hundred times.\<close>

definition fresh_store :: "nat \<times> Manager" where
  "fresh_store = (100, NewManager ''alertstate.json'')"

text \<open>The alerts built from the two rows, with the instants at which they were built.\<close>

definition first_alert :: PostableAlert where
  "first_alert = \<lparr>Annotations = [''summary'' \<mapsto> ''full''], EndsAt = None,
     StartsAt = 100000000000, alert = \<lparr>Labels = db1_labels, GeneratorURL = []\<rparr>\<rparr>"

definition second_alert :: PostableAlert where
  "second_alert = \<lparr>Annotations = [''summary'' \<mapsto> ''nearly full''], EndsAt = None,
     StartsAt = 101000000000, alert = \<lparr>Labels = db1_labels, GeneratorURL = []\<rparr>\<rparr>"

text \<open>The first alert with the start instant of \<open>active_db1\<close>, and the alert that resolves
  \<open>active_db2\<close> at the instant of the clock's reading 103.\<close>

definition continued_alert :: PostableAlert where
  "continued_alert = \<lparr>Annotations = [''summary'' \<mapsto> ''full''], EndsAt = None,
     StartsAt = 40000000000, alert = \<lparr>Labels = db1_labels, GeneratorURL = []\<rparr>\<rparr>"

definition resolved_db2 :: PostableAlert where
  "resolved_db2 = \<lparr>Annotations = Map.empty, EndsAt = Some 103000000000,
     StartsAt = 50000000000, alert = \<lparr>Labels = db2_labels, GeneratorURL = []\<rparr>\<rparr>"

text \<open>A query result with a row for another host before the row for \<open>db1\<close>, and the
  alerts built from its two rows.\<close>

definition mixed_rows :: query_result where
  "mixed_rows = Rows [''host'', ''summary'']
     [[Some ''db2'', Some ''full''], [Some ''db1'', Some ''full'']] False"

definition other_alert :: PostableAlert where
  "other_alert = \<lparr>Annotations = [''summary'' \<mapsto> ''full''], EndsAt = None,
     StartsAt = 100000000000, alert = \<lparr>Labels = db2_labels, GeneratorURL = []\<rparr>\<rparr>"

definition late_alert :: PostableAlert where
  "late_alert = \<lparr>Annotations = [''summary'' \<mapsto> ''full''], EndsAt = None,
     StartsAt = 101000000000, alert = \<lparr>Labels = db1_labels, GeneratorURL = []\<rparr>\<rparr>"

text \<open>The store of a process that holds a record for the identity of \<open>active_db2\<close>, first
  seen at second 50.\<close>

definition known_db2_store :: "nat \<times> Manager" where
  "known_db2_store =
     (100, \<lparr>state = [''alertname=disk,host=db2'' \<mapsto> 50000000000],
            filePath = ''alertstate.json''\<rparr>)"

section \<open>Properties of the identity function\<close>

lemma sort_unique:
  fixes ks1 :: "string list"
  assumes "set ks1 = set ks2" "distinct ks1" "distinct ks2"
  shows "sort ks1 = sort ks2"
  using assms by (intro sorted_distinct_set_unique) auto

lemma dom_two: "dom [''a'' \<mapsto> ''1'', ''b'' \<mapsto> ''2''] = set [''a'', ''b'']"
  by auto

text \<open>
  C9. The identity does not depend on the order in which the keys of the mapping are
  visited: two mappings with the same pairs, visited in any two orders, give the same
  string, which is the string \<open>key\<close> returns; the empty mapping gives the empty string.
\<close>

theorem key_order_independent:
  assumes "set ks1 = dom m1" "distinct ks1" "set ks2 = dom m2" "distinct ks2"
    and "\<forall>k. m1 k = m2 k"
  shows "key_range ks1 m1 = key_range ks2 m2 \<and> key_range ks1 m1 = key m1
    \<and> key_range ks Map.empty = [] \<and> key Map.empty = []"
proof -
  have eq: "m1 = m2" using assms(5) by (simp add: fun_eq_iff)
  have "sort ks1 = sort ks2"
    using assms(1-4) eq by (intro sort_unique) auto
  moreover have "sort ks1 = sorted_list_of_set (dom m1)"
    using assms(1,2) by (metis sorted_list_of_set_sort_remdups distinct_remdups_id)
  ultimately show ?thesis
    using eq by (simp add: key_range_def key_def sorted_sort_id)
qed

theorem key_order_independent_witness:
  "set [''a'', ''b''] = dom [''a'' \<mapsto> ''1'', ''b'' \<mapsto> ''2''] \<and> distinct [''a'', ''b'']
   \<and> set [''b'', ''a''] = dom [''b'' \<mapsto> ''2'', ''a'' \<mapsto> ''1''] \<and> distinct [''b'', ''a'']
   \<and> (\<forall>k. [''a'' \<mapsto> ''1'', ''b'' \<mapsto> ''2''] k = [''b'' \<mapsto> ''2'', ''a'' \<mapsto> ''1''] k)
   \<and> key_range [''a'', ''b''] [''a'' \<mapsto> ''1'', ''b'' \<mapsto> ''2'']
     = key_range [''b'', ''a''] [''b'' \<mapsto> ''2'', ''a'' \<mapsto> ''1'']
   \<and> key_range [''b'', ''a''] [''b'' \<mapsto> ''2'', ''a'' \<mapsto> ''1''] = ''a=1,b=2''"
proof -
  have h1: "set [''a'', ''b''] = dom [''a'' \<mapsto> ''1'', ''b'' \<mapsto> ''2'']" by auto
  have h2: "distinct [''a'', ''b'']" by simp
  have h3: "set [''b'', ''a''] = dom [''b'' \<mapsto> ''2'', ''a'' \<mapsto> ''1'']" by auto
  have h4: "distinct [''b'', ''a'']" by simp
  have h5: "\<forall>k. [''a'' \<mapsto> ''1'', ''b'' \<mapsto> ''2''] k = [''b'' \<mapsto> ''2'', ''a'' \<mapsto> ''1''] k"
    by simp
  have val: "key_range [''b'', ''a''] [''b'' \<mapsto> ''2'', ''a'' \<mapsto> ''1''] = ''a=1,b=2''"
    by (simp add: key_range_def index_def)
  show ?thesis
    using key_order_independent [OF h1 h2 h3 h4 h5] h1 h2 h3 h4 h5 val by blast
qed

text \<open>
  C10. The identity is not injective: the separators are written unescaped, so the
  mapping with the one label \<^verbatim>\<open>a\<close> of value \<^verbatim>\<open>1,b=2\<close> and the mapping with the two labels
  \<^verbatim>\<open>a\<close> of value \<^verbatim>\<open>1\<close> and \<^verbatim>\<open>b\<close> of value \<^verbatim>\<open>2\<close> are different and have the same identity.
\<close>

theorem key_not_injective:
  "key [''a'' \<mapsto> ''1,b=2''] = ''a=1,b=2''
   \<and> key [''a'' \<mapsto> ''1'', ''b'' \<mapsto> ''2''] = ''a=1,b=2''
   \<and> [''a'' \<mapsto> ''1,b=2''] \<noteq> [''a'' \<mapsto> ''1'', ''b'' \<mapsto> ''2'']"
proof -
  have 1: "key [''a'' \<mapsto> ''1,b=2''] = ''a=1,b=2''"
    by (simp add: key_def key_range_def index_def)
  have 2: "key [''a'' \<mapsto> ''1'', ''b'' \<mapsto> ''2''] = ''a=1,b=2''"
    by (simp add: key_def key_range_def dom_two sorted_list_of_set_sort_remdups index_def
        del: set_simps)
  have "[''a'' \<mapsto> ''1,b=2''] ''b'' \<noteq> [''a'' \<mapsto> ''1'', ''b'' \<mapsto> ''2''] ''b''"
    by simp
  then have 3: "[''a'' \<mapsto> ''1,b=2''] \<noteq> [''a'' \<mapsto> ''1'', ''b'' \<mapsto> ''2'']"
    by metis
  show ?thesis using 1 2 3 by blast
qed

section \<open>Properties of the debounce store\<close>

text \<open>Within the range of a Duration, \<^verbatim>\<open>time.Since\<close> is the difference of the instants, and
  for every threshold above the minimum Duration the comparison is the one on the
  difference.\<close>

lemma Since_exact:
  "minDuration \<le> now - first \<Longrightarrow> now - first \<le> maxDuration \<Longrightarrow> Since now first = now - first"
  by (simp add: Since_def)

lemma Since_ge_iff:
  "minDuration < d \<Longrightarrow> d \<le> maxDuration \<Longrightarrow> d \<le> Since now first \<longleftrightarrow> d \<le> now - first"
  by (auto simp: Since_def minDuration_def maxDuration_def)

text \<open>
  C7. \<^verbatim>\<open>ShouldFire\<close> answers true exactly when the store holds a record for the identity
  and the time elapsed since the recorded first-seen instant, as \<^verbatim>\<open>time.Since\<close> measures it
  at the call, is at least \<^verbatim>\<open>forDuration\<close>; without a record it answers false whatever
  \<^verbatim>\<open>forDuration\<close> is. For every \<^verbatim>\<open>forDuration\<close> that is a Duration above the minimum, the
  elapsed time may be read as the difference of the two instants.
\<close>

theorem ShouldFire_iff:
  "fst (ShouldFire clk k d (n, m)) = (\<exists>first. state m k = Some first \<and> d \<le> Since (clk n) first)
   \<and> (state m k = None \<longrightarrow> \<not> fst (ShouldFire clk k d (n, m)))
   \<and> (minDuration < d \<and> d \<le> maxDuration \<longrightarrow>
        fst (ShouldFire clk k d (n, m)) = (\<exists>first. state m k = Some first \<and> d \<le> clk n - first))"
proof (cases "state m k")
  case None
  then show ?thesis by (simp add: ShouldFire_def)
next
  case (Some first)
  have "minDuration < d \<and> d \<le> maxDuration \<longrightarrow> (d \<le> Since (clk n) first \<longleftrightarrow> d \<le> clk n - first)"
    using Since_ge_iff by blast
  then show ?thesis using Some by (simp add: ShouldFire_def)
qed

theorem ShouldFire_iff_witness:
  "state (NewManager ''alertstate.json'') ''alertname=r'' = None
   \<and> \<not> fst (ShouldFire seconds ''alertname=r'' 0 (0, NewManager ''alertstate.json''))
   \<and> minDuration < 1000000000 \<and> 1000000000 \<le> maxDuration
   \<and> fst (ShouldFire seconds ''alertname=r'' 1000000000
        (MarkActive seconds ''alertname=r'' (0, NewManager ''alertstate.json'')))
   \<and> \<not> fst (ShouldFire seconds ''alertname=r'' 1000000001
        (MarkActive seconds ''alertname=r'' (0, NewManager ''alertstate.json'')))"
  using ShouldFire_iff [of seconds "''alertname=r''" 0 0 "NewManager ''alertstate.json''"]
    ShouldFire_iff [of seconds "''alertname=r''" 1000000000 1
      "(NewManager ''alertstate.json'')\<lparr>state := [''alertname=r'' \<mapsto> 0]\<rparr>"]
    ShouldFire_iff [of seconds "''alertname=r''" 1000000001 1
      "(NewManager ''alertstate.json'')\<lparr>state := [''alertname=r'' \<mapsto> 0]\<rparr>"]
  by (simp add: NewManager_def MarkActive_def seconds_def Since_def minDuration_def
      maxDuration_def)

lemma call_keeps:
  "c \<noteq> CallMarkResolved X \<Longrightarrow> state (snd s) X = Some t
   \<Longrightarrow> state (snd (call clk c s)) X = Some t"
  by (cases c; cases s)
    (auto simp: MarkActive_def MarkResolved_def ShouldFire_def split: option.splits)

lemma calls_keep:
  "CallMarkResolved X \<notin> set cs \<Longrightarrow> state (snd s) X = Some t
   \<Longrightarrow> state (snd (fold (call clk) cs s)) X = Some t"
proof (induction cs arbitrary: s)
  case Nil
  then show ?case by simp
next
  case (Cons c cs)
  have "state (snd (call clk c s)) X = Some t"
    using Cons.prems by (intro call_keeps) auto
  then show ?case using Cons by simp
qed

lemma MarkActive_records: "\<exists>t. state (snd (MarkActive clk X s)) X = Some t"
  by (cases s) (auto simp: MarkActive_def)

lemma MarkActive_present: "state (snd s) X = Some t \<Longrightarrow> MarkActive clk X s = s"
  by (cases s) (auto simp: MarkActive_def)

text \<open>
  C8. After \<^verbatim>\<open>MarkActive(X)\<close>, and after any further calls on the store among which there
  is no \<^verbatim>\<open>MarkResolved(X)\<close>, a second \<^verbatim>\<open>MarkActive(X)\<close> changes nothing (neither the
  mapping nor the number of clock readings), and the first-seen instant stored for \<open>X\<close> is
  still the one that the first call left.
\<close>

theorem MarkActive_idempotent:
  assumes "CallMarkResolved X \<notin> set calls"
  shows "MarkActive clk X (fold (call clk) calls (MarkActive clk X s))
           = fold (call clk) calls (MarkActive clk X s)
       \<and> state (snd (fold (call clk) calls (MarkActive clk X s))) X
           = state (snd (MarkActive clk X s)) X
       \<and> state (snd (MarkActive clk X s)) X \<noteq> None"
proof -
  obtain t where t: "state (snd (MarkActive clk X s)) X = Some t"
    using MarkActive_records by blast
  have "state (snd (fold (call clk) calls (MarkActive clk X s))) X = Some t"
    using assms t by (rule calls_keep)
  then show ?thesis using t MarkActive_present by auto
qed

theorem MarkActive_idempotent_witness:
  "CallMarkResolved ''x'' \<notin> set [CallShouldFire ''x'' 0, CallMarkResolved ''y'', CallMarkActive ''y'']
   \<and> state (snd (MarkActive seconds ''x''
        (fold (call seconds) [CallShouldFire ''x'' 0, CallMarkResolved ''y'', CallMarkActive ''y'']
          (MarkActive seconds ''x'' (5, NewManager ''alertstate.json''))))) ''x''
     = Some 5000000000"
proof -
  have h: "CallMarkResolved ''x''
      \<notin> set [CallShouldFire ''x'' 0, CallMarkResolved ''y'', CallMarkActive ''y'']"
    by simp
  have first: "state (snd (MarkActive seconds ''x'' (5, NewManager ''alertstate.json''))) ''x''
      = Some 5000000000"
    by (simp add: MarkActive_def NewManager_def seconds_def)
  show ?thesis
    using MarkActive_idempotent [OF h, of seconds "(5, NewManager ''alertstate.json'')"] h first
    by simp
qed

section \<open>Properties of the startup\<close>

text \<open>A state file that is cut short: \<^verbatim>\<open>Load\<close> returns the error of the decoder, and the
  startup goes on with the empty store after one log line.\<close>

theorem malformed_state_does_not_abort:
  "Load (readFile broken_state_env) (unmarshal broken_state_env) (NewManager ''alertstate.json'')
     = (Some (ErrUnmarshal ''unexpected end of JSON input''), NewManager ''alertstate.json'')
   \<and> main_startup broken_state_env ''alertstate.json''
     = Started (NewManager ''alertstate.json'') [''error loading state file'']"
  by (simp add: main_startup_def Load_def broken_state_env_def broken_file_def
      strict_decoder_def NewManager_def)

text \<open>
  C6. \<^verbatim>\<open>Load\<close> on a missing file returns no error and leaves the store of \<^verbatim>\<open>NewManager\<close>,
  which is empty; \<^verbatim>\<open>Load\<close> on a file that the decoder rejects returns the decoder's error;
  and when the configuration and the database are in order the startup goes on with the
  store that \<^verbatim>\<open>Load\<close> left, writing one log line when \<^verbatim>\<open>Load\<close> returned an error.
\<close>

theorem Load_and_startup:
  "(readFile env path = Inl ErrNotExist
      \<longrightarrow> Load (readFile env) (unmarshal env) (NewManager path) = (None, NewManager path)
        \<and> state (NewManager path) = Map.empty)
   \<and> (readFile env path = Inr data \<and> fst (unmarshal env data Map.empty) = Some err
      \<longrightarrow> fst (Load (readFile env) (unmarshal env) (NewManager path)) = Some err)
   \<and> (configOpens env \<and> configParses env \<and> dbOpens env \<and> dbPings env
      \<longrightarrow> main_startup env path
          = Started (snd (Load (readFile env) (unmarshal env) (NewManager path)))
              (if fst (Load (readFile env) (unmarshal env) (NewManager path)) \<noteq> None
               then [''error loading state file''] else []))"
  by (auto simp: Load_def main_startup_def NewManager_def split_def Let_def
      split: sum.splits error.splits prod.splits)

theorem Load_and_startup_witness:
  "readFile fresh_env ''alertstate.json'' = Inl ErrNotExist
   \<and> Load (readFile fresh_env) (unmarshal fresh_env) (NewManager ''alertstate.json'')
     = (None, NewManager ''alertstate.json'')
   \<and> readFile broken_state_env ''alertstate.json'' = Inr ''{''
   \<and> fst (unmarshal broken_state_env ''{'' Map.empty)
     = Some (ErrUnmarshal ''unexpected end of JSON input'')
   \<and> fst (Load (readFile broken_state_env) (unmarshal broken_state_env)
       (NewManager ''alertstate.json''))
     = Some (ErrUnmarshal ''unexpected end of JSON input'')
   \<and> configOpens broken_state_env \<and> configParses broken_state_env
   \<and> dbOpens broken_state_env \<and> dbPings broken_state_env
   \<and> main_startup broken_state_env ''alertstate.json''
     = Started (NewManager ''alertstate.json'') [''error loading state file'']"
  using Load_and_startup [of fresh_env "''alertstate.json''"]
    Load_and_startup [of broken_state_env "''alertstate.json''" "''{''"
      "ErrUnmarshal ''unexpected end of JSON input''"]
  by (simp add: fresh_env_def broken_state_env_def missing_file_def broken_file_def
      strict_decoder_def Load_def NewManager_def)

section \<open>Properties of one evaluation\<close>

subsection \<open>The three loops\<close>

text \<open>Every label mapping built from a row holds \<^verbatim>\<open>alertname\<close>, so none is empty.\<close>

lemma labels_of_alertname: "labels_of r cols raw ''alertname'' = Some (Name r)"
  by (simp add: labels_of_def)

lemma labels_of_not_empty: "labels_of r cols raw \<noteq> Map.empty"
  using labels_of_alertname [of r cols raw] by (metis option.distinct(1))

lemma rows_loop_frame:
  "store (rows_loop r clk cols raws c) = store c
   \<and> filteredAlerts (rows_loop r clk cols raws c) = filteredAlerts c
   \<and> reads (rows_loop r clk cols raws c) = reads c + length raws
   \<and> length (heap (rows_loop r clk cols raws c)) = length (heap c) + length raws"
  by (induction raws arbitrary: c) (simp_all add: new_def Let_def)

lemma rows_loop_labels:
  "map (\<lambda>a. Labels (alert a)) (heap (rows_loop r clk cols raws c))
     = map (\<lambda>a. Labels (alert a)) (heap c) @ map (labels_of r cols) raws"
  by (induction raws arbitrary: c) (simp_all add: new_def Let_def)

lemma rows_loop_firing:
  "firingAlerts (rows_loop r clk cols raws c)
     = firingAlerts c @ [length (heap c) ..< length (heap c) + length raws]"
proof (induction raws arbitrary: c)
  case Nil
  then show ?case by simp
next
  case (Cons raw raws)
  have "[length (heap c) ..< length (heap c) + Suc (length raws)]
      = length (heap c) # [Suc (length (heap c)) ..< Suc (length (heap c)) + length raws]"
    by (subst upt_rec) simp
  then show ?case using Cons by (simp add: new_def Let_def)
qed

lemma filter_loop_frame:
  "heap (filter_loop r clk ps c) = heap c \<and> firingAlerts (filter_loop r clk ps c) = firingAlerts c"
  by (induction ps arbitrary: c) (simp_all add: Let_def split_def)

lemma filter_loop_sub:
  "\<exists>sub. filteredAlerts (filter_loop r clk ps c) = filteredAlerts c @ sub \<and> subseq sub ps"
proof (induction ps arbitrary: c)
  case Nil
  then show ?case by simp
next
  case (Cons p ps)
  define s where "s = ShouldFire clk (key (Labels (alert (heap c ! p)))) (For r)
      (MarkActive clk (key (Labels (alert (heap c ! p)))) (reads c, store c))"
  define c' where "c' = c\<lparr>reads := fst (snd s), store := snd (snd s)\<rparr>"
  show ?case
  proof (cases "fst s")
    case True
    then have step: "filter_loop r clk (p # ps) c
        = filter_loop r clk ps (c'\<lparr>filteredAlerts := filteredAlerts c' @ [p]\<rparr>)"
      by (simp add: Let_def split_def s_def c'_def)
    obtain sub where "filteredAlerts (filter_loop r clk ps (c'\<lparr>filteredAlerts := filteredAlerts c' @ [p]\<rparr>))
        = filteredAlerts (c'\<lparr>filteredAlerts := filteredAlerts c' @ [p]\<rparr>) @ sub" "subseq sub ps"
      using Cons.IH by blast
    then have "filteredAlerts (filter_loop r clk (p # ps) c) = filteredAlerts c @ (p # sub)
        \<and> subseq (p # sub) (p # ps)"
      using step by (simp add: c'_def)
    then show ?thesis by blast
  next
    case False
    then have step: "filter_loop r clk (p # ps) c = filter_loop r clk ps c'"
      by (simp add: Let_def split_def s_def c'_def)
    obtain sub where "filteredAlerts (filter_loop r clk ps c') = filteredAlerts c' @ sub" "subseq sub ps"
      using Cons.IH by blast
    then have "filteredAlerts (filter_loop r clk (p # ps) c) = filteredAlerts c @ sub
        \<and> subseq sub (p # ps)"
      using step by (simp add: c'_def list_emb_Cons)
    then show ?thesis by blast
  qed
qed

lemma subseq_distinct: "subseq xs ys \<Longrightarrow> distinct ys \<Longrightarrow> distinct xs"
proof (induction rule: list_emb.induct)
  case (list_emb_Cons2 x y xs ys)
  then show ?case by (auto elim: list_emb_set)
qed auto

lemma subseq_subset: "subseq xs ys \<Longrightarrow> set xs \<subseteq> set ys"
  by (auto elim: list_emb_set)

lemma find_firing_cong:
  "\<forall>p\<in>set F. Labels (alert (h' ! p)) = Labels (alert (h ! p))
   \<Longrightarrow> find_firing h' l F = find_firing h l F"
  by (induction F) auto

lemma find_firing_Some:
  "find_firing h l F = Some p \<Longrightarrow> p \<in> set F \<and> Labels (alert (h ! p)) = l"
  by (induction F) (auto split: if_splits)

lemma find_firing_None:
  "find_firing h l F = None \<longleftrightarrow> l \<notin> set (map (\<lambda>p. Labels (alert (h ! p))) F)"
  by (induction F) auto

lemma existing_found:
  assumes "find_firing (heap c) (Labels (gAlert e)) (firingAlerts c) = Some p"
    and "gStartsAt e = Some t"
  shows "existing_loop clk (e # es) c
    = existing_loop clk es (c\<lparr>heap := (heap c)[p := (heap c ! p)\<lparr>StartsAt := t\<rparr>]\<rparr>)"
  using assms by simp

lemma MarkResolved_eq:
  "MarkResolved k (n, m) = (n, m\<lparr>state := (state m)(k := None)\<rparr>)"
proof (cases "state m k")
  case None
  then have "(state m)(k := None) = state m" by (simp add: fun_upd_idem)
  then show ?thesis using None by (simp add: MarkResolved_def)
next
  case (Some t)
  then show ?thesis by (simp add: MarkResolved_def)
qed

lemma existing_unmatched:
  assumes "find_firing (heap c) (Labels (gAlert e)) (firingAlerts c) = None"
    and "gStartsAt e = Some t"
  shows "existing_loop clk (e # es) c
    = existing_loop clk es
        (c\<lparr>heap := heap c @ [\<lparr>Annotations = Map.empty, EndsAt = Some (clk (reads c)),
                               StartsAt = t, alert = gAlert e\<rparr>],
           filteredAlerts := filteredAlerts c @ [length (heap c)],
           reads := Suc (reads c),
           store := (store c)\<lparr>state := (state (store c))(key (Labels (gAlert e)) := None)\<rparr>\<rparr>)"
  using assms by (simp add: new_def MarkResolved_eq)

lemma existing_nil:
  "gStartsAt e = None \<Longrightarrow> existing_loop clk (e # es) c = NilPanic c"
  by (simp split: option.splits)

subsection \<open>The loop over the existing alerts\<close>

lemma valid_found: "valid c \<Longrightarrow> valid (found_upd p t c)"
  by (simp add: valid_def found_upd_def)

lemma valid_resolve: "valid c \<Longrightarrow> valid (resolve_upd clk e t c)"
  by (auto simp: valid_def resolve_upd_def)

lemma find_found:
  "valid c \<Longrightarrow> find_firing (heap (found_upd p t c)) l (firingAlerts (found_upd p t c))
     = find_firing (heap c) l (firingAlerts c)"
proof -
  assume v: "valid c"
  have "\<forall>q\<in>set (firingAlerts c).
      Labels (alert ((heap c)[p := (heap c ! p)\<lparr>StartsAt := t\<rparr>] ! q)) = Labels (alert (heap c ! q))"
  proof
    fix q assume "q \<in> set (firingAlerts c)"
    then have "q < length (heap c)" using v by (simp add: valid_def)
    then show "Labels (alert ((heap c)[p := (heap c ! p)\<lparr>StartsAt := t\<rparr>] ! q))
        = Labels (alert (heap c ! q))"
      by (cases "q = p") simp_all
  qed
  then show ?thesis
    by (simp add: found_upd_def find_firing_cong)
qed

lemma find_resolve:
  "valid c \<Longrightarrow> find_firing (heap (resolve_upd clk e t c)) l (firingAlerts (resolve_upd clk e t c))
     = find_firing (heap c) l (firingAlerts c)"
  unfolding resolve_upd_def valid_def
  by (simp, intro find_firing_cong) (auto simp: nth_append)

lemma unmatched_found: "valid c \<Longrightarrow> unmatched (found_upd p t c) es = unmatched c es"
  by (simp add: unmatched_def find_found)

lemma unmatched_resolve: "valid c \<Longrightarrow> unmatched (resolve_upd clk e t c) es = unmatched c es"
  by (simp add: unmatched_def find_resolve)

lemma existing_loop_induct [consumes 2, case_names Nil found resolve]:
  assumes run: "existing_loop clk es c = Normal c'"
    and v: "valid c"
    and base: "P [] c'"
    and found: "\<And>e es c p t.
        \<lbrakk>find_firing (heap c) (Labels (gAlert e)) (firingAlerts c) = Some p; gStartsAt e = Some t;
         p \<in> set (firingAlerts c); p < length (heap c);
         Labels (alert (heap c ! p)) = Labels (gAlert e); valid c;
         existing_loop clk es (found_upd p t c) = Normal c'; P es (found_upd p t c)\<rbrakk>
        \<Longrightarrow> P (e # es) c"
    and resolve: "\<And>e es c t.
        \<lbrakk>find_firing (heap c) (Labels (gAlert e)) (firingAlerts c) = None; gStartsAt e = Some t;
         valid c; existing_loop clk es (resolve_upd clk e t c) = Normal c';
         P es (resolve_upd clk e t c)\<rbrakk>
        \<Longrightarrow> P (e # es) c"
  shows "P es c"
  using run v
proof (induction es arbitrary: c)
  case Nil
  then show ?case using base by simp
next
  case (Cons e es)
  show ?case
  proof (cases "gStartsAt e")
    case None
    then show ?thesis using Cons.prems(1) existing_nil by simp
  next
    case (Some t)
    show ?thesis
    proof (cases "find_firing (heap c) (Labels (gAlert e)) (firingAlerts c)")
      case None
      have step: "existing_loop clk es (resolve_upd clk e t c) = Normal c'"
        using existing_unmatched [OF None Some] Cons.prems(1) by (simp add: resolve_upd_def)
      show ?thesis
        using resolve [OF None Some Cons.prems(2) step]
          Cons.IH [OF step valid_resolve [OF Cons.prems(2)]] by blast
    next
      case (Some p)
      have step: "existing_loop clk es (found_upd p t c) = Normal c'"
        using existing_found [OF Some \<open>gStartsAt e = Some t\<close>] Cons.prems(1)
        by (simp add: found_upd_def)
      have mem: "p \<in> set (firingAlerts c)" "Labels (alert (heap c ! p)) = Labels (gAlert e)"
        using find_firing_Some [OF Some] by auto
      then have lt: "p < length (heap c)" using Cons.prems(2) by (simp add: valid_def)
      show ?thesis
        using found [OF Some \<open>gStartsAt e = Some t\<close> mem(1) lt mem(2) Cons.prems(2) step]
          Cons.IH [OF step valid_found [OF Cons.prems(2)]] by blast
    qed
  qed
qed

lemma existing_firing:
  "existing_loop clk es c = Normal c' \<Longrightarrow> valid c \<Longrightarrow> firingAlerts c' = firingAlerts c"
  by (induction rule: existing_loop_induct) (simp_all add: found_upd_def resolve_upd_def)

lemma existing_counts:
  "existing_loop clk es c = Normal c' \<Longrightarrow> valid c \<Longrightarrow>
     length (heap c') = length (heap c) + length (unmatched c es)
     \<and> reads c' = reads c + length (unmatched c es)
     \<and> filteredAlerts c'
         = filteredAlerts c @ [length (heap c) ..< length (heap c) + length (unmatched c es)]"
proof (induction rule: existing_loop_induct)
  case Nil
  then show ?case by (simp add: unmatched_def)
next
  case (found e es c p t)
  have "unmatched c (e # es) = unmatched c es"
    using found(1) by (simp add: unmatched_def)
  then show ?case
    using found(8) unmatched_found [OF found(6)] by (simp add: found_upd_def)
next
  case (resolve e es c t)
  have u: "unmatched c (e # es) = e # unmatched c es"
    using resolve(1) by (simp add: unmatched_def)
  have "[length (heap c) ..< length (heap c) + Suc (length (unmatched c es))]
      = length (heap c) # [Suc (length (heap c)) ..< Suc (length (heap c)) + length (unmatched c es)]"
    by (subst upt_rec) simp
  then show ?case
    using resolve(5) unmatched_resolve [OF resolve(3)] u by (simp add: resolve_upd_def)
qed

lemma existing_fields:
  "existing_loop clk es c = Normal c' \<Longrightarrow> valid c \<Longrightarrow> q < length (heap c) \<Longrightarrow>
     alert (heap c' ! q) = alert (heap c ! q)
     \<and> Annotations (heap c' ! q) = Annotations (heap c ! q)
     \<and> EndsAt (heap c' ! q) = EndsAt (heap c ! q)"
proof (induction rule: existing_loop_induct)
  case Nil
  then show ?case by simp
next
  case (found e es c p t)
  then show ?case by (cases "q = p") (simp_all add: found_upd_def)
next
  case (resolve e es c t)
  then show ?case by (simp add: resolve_upd_def nth_append)
qed

lemma existing_unchanged:
  "existing_loop clk es c = Normal c' \<Longrightarrow> valid c \<Longrightarrow> q < length (heap c) \<Longrightarrow>
     \<forall>e\<in>set es. find_firing (heap c) (Labels (gAlert e)) (firingAlerts c) \<noteq> Some q \<Longrightarrow>
     heap c' ! q = heap c ! q"
proof (induction rule: existing_loop_induct)
  case Nil
  then show ?case by simp
next
  case (found e es c p t)
  have "q \<noteq> p" using found(1) found.prems(2) by auto
  moreover have "\<forall>e\<in>set es. find_firing (heap (found_upd p t c)) (Labels (gAlert e))
      (firingAlerts (found_upd p t c)) \<noteq> Some q"
    using found.prems(2) find_found [OF found(6)] by simp
  ultimately show ?case using found(8) found.prems(1) by (simp add: found_upd_def)
next
  case (resolve e es c t)
  have "\<forall>e'\<in>set es. find_firing (heap (resolve_upd clk e t c)) (Labels (gAlert e'))
      (firingAlerts (resolve_upd clk e t c)) \<noteq> Some q"
    using resolve.prems(2) find_resolve [OF resolve(3)] by simp
  then show ?case using resolve(5) resolve.prems(1) by (simp add: resolve_upd_def nth_append)
qed

lemma existing_store:
  "existing_loop clk es c = Normal c' \<Longrightarrow> valid c \<Longrightarrow>
     state (store c') = (\<lambda>k. if k \<in> (\<lambda>e. key (Labels (gAlert e))) ` set (unmatched c es)
                              then None else state (store c) k)
     \<and> filePath (store c') = filePath (store c)"
proof (induction rule: existing_loop_induct)
  case Nil
  then show ?case by (simp add: unmatched_def)
next
  case (found e es c p t)
  have "unmatched c (e # es) = unmatched c es"
    using found(1) by (simp add: unmatched_def)
  then show ?case
    using found(8) unmatched_found [OF found(6)] by (simp add: found_upd_def cong: if_cong)
next
  case (resolve e es c t)
  have u: "unmatched c (e # es) = e # unmatched c es"
    using resolve(1) by (simp add: unmatched_def)
  show ?case
    using resolve(5) unmatched_resolve [OF resolve(3)] u
    by (auto simp: resolve_upd_def fun_eq_iff cong: if_cong)
qed

lemma existing_tail:
  "existing_loop clk es c = Normal c' \<Longrightarrow> valid c \<Longrightarrow>
     drop (length (heap c)) (heap c')
       = map (\<lambda>(e, n). \<lparr>Annotations = Map.empty, EndsAt = Some (clk n),
                          StartsAt = the (gStartsAt e), alert = gAlert e\<rparr>)
           (zip (unmatched c es) [reads c ..< reads c + length (unmatched c es)])"
proof (induction rule: existing_loop_induct)
  case Nil
  then show ?case by (simp add: unmatched_def)
next
  case (found e es c p t)
  have "unmatched c (e # es) = unmatched c es"
    using found(1) by (simp add: unmatched_def)
  then show ?case
    using found(8) unmatched_found [OF found(6)] by (simp add: found_upd_def)
next
  case (resolve e es c t)
  let ?c1 = "resolve_upd clk e t c"
  let ?x = "\<lparr>Annotations = Map.empty, EndsAt = Some (clk (reads c)),
             StartsAt = t, alert = gAlert e\<rparr>"
  let ?n = "length (heap c)"
  have u: "unmatched c (e # es) = e # unmatched c es"
    using resolve(1) by (simp add: unmatched_def)
  have v1: "valid ?c1" using resolve(3) by (rule valid_resolve)
  have notin: "\<forall>e'\<in>set es. find_firing (heap ?c1) (Labels (gAlert e')) (firingAlerts ?c1) \<noteq> Some ?n"
  proof
    fix e' assume "e' \<in> set es"
    show "find_firing (heap ?c1) (Labels (gAlert e')) (firingAlerts ?c1) \<noteq> Some ?n"
    proof
      assume "find_firing (heap ?c1) (Labels (gAlert e')) (firingAlerts ?c1) = Some ?n"
      then have "?n \<in> set (firingAlerts ?c1)" using find_firing_Some by blast
      then have "?n \<in> set (firingAlerts c)" by (simp add: resolve_upd_def)
      then show False using resolve(3) by (auto simp: valid_def)
    qed
  qed
  have "heap c' ! ?n = heap ?c1 ! ?n"
    using existing_unchanged [OF resolve(4) v1 _ notin] by (simp add: resolve_upd_def)
  then have at: "heap c' ! ?n = ?x" by (simp add: resolve_upd_def)
  have len: "?n < length (heap c')"
    using existing_counts [OF resolve(4) v1] by (simp add: resolve_upd_def)
  have "drop ?n (heap c') = heap c' ! ?n # drop (Suc ?n) (heap c')"
    using len by (simp add: Cons_nth_drop_Suc)
  moreover have "drop (Suc ?n) (heap c')
      = map (\<lambda>(e, n). \<lparr>Annotations = Map.empty, EndsAt = Some (clk n),
                          StartsAt = the (gStartsAt e), alert = gAlert e\<rparr>)
          (zip (unmatched c es) [Suc (reads c) ..< Suc (reads c) + length (unmatched c es)])"
    using resolve(5) unmatched_resolve [OF resolve(3)] by (simp add: resolve_upd_def)
  moreover have "[reads c ..< reads c + Suc (length (unmatched c es))]
      = reads c # [Suc (reads c) ..< Suc (reads c) + length (unmatched c es)]"
    by (subst upt_rec) simp
  ultimately show ?case using u at resolve(2) by simp
qed

lemma existing_starts:
  "existing_loop clk es c = Normal c' \<Longrightarrow> valid c \<Longrightarrow> e \<in> set es \<Longrightarrow>
     distinct (map (\<lambda>e. Labels (gAlert e)) es) \<Longrightarrow>
     find_firing (heap c) (Labels (gAlert e)) (firingAlerts c) = Some p \<Longrightarrow>
     gStartsAt e = Some (StartsAt (heap c' ! p))"
proof (induction rule: existing_loop_induct)
  case Nil
  then show ?case by simp
next
  case (found e0 es c p0 t)
  let ?c1 = "found_upd p0 t c"
  have v1: "valid ?c1" using found(6) by (rule valid_found)
  show ?case
  proof (cases "e = e0")
    case True
    then have pp: "p0 = p" using found(1) found.prems(3) by simp
    have notin: "\<forall>e'\<in>set es. find_firing (heap ?c1) (Labels (gAlert e')) (firingAlerts ?c1) \<noteq> Some p"
    proof
      fix e' assume e': "e' \<in> set es"
      show "find_firing (heap ?c1) (Labels (gAlert e')) (firingAlerts ?c1) \<noteq> Some p"
      proof
        assume "find_firing (heap ?c1) (Labels (gAlert e')) (firingAlerts ?c1) = Some p"
        then have "find_firing (heap c) (Labels (gAlert e')) (firingAlerts c) = Some p"
          using find_found [OF found(6)] by simp
        then have "Labels (alert (heap c ! p)) = Labels (gAlert e')"
          using find_firing_Some by blast
        then have "Labels (gAlert e') = Labels (gAlert e0)" using found(5) pp by simp
        moreover have "Labels (gAlert e0) \<notin> (\<lambda>e. Labels (gAlert e)) ` set es"
          using found.prems(2) by simp
        ultimately show False using e' by (metis imageI)
      qed
    qed
    have "heap c' ! p = heap ?c1 ! p"
      using existing_unchanged [OF found(7) v1 _ notin] found(4) pp by (simp add: found_upd_def)
    then show ?thesis using found(2) found(4) pp True by (simp add: found_upd_def)
  next
    case False
    then have "e \<in> set es" using found.prems(1) by simp
    moreover have "distinct (map (\<lambda>e. Labels (gAlert e)) es)" using found.prems(2) by simp
    moreover have "find_firing (heap ?c1) (Labels (gAlert e)) (firingAlerts ?c1) = Some p"
      using found.prems(3) find_found [OF found(6)] by simp
    ultimately show ?thesis using found(8) by blast
  qed
next
  case (resolve e0 es c t)
  let ?c1 = "resolve_upd clk e0 t c"
  have "e \<noteq> e0" using resolve(1) resolve.prems(3) by auto
  then have "e \<in> set es" using resolve.prems(1) by simp
  moreover have "distinct (map (\<lambda>e. Labels (gAlert e)) es)" using resolve.prems(2) by simp
  moreover have "find_firing (heap ?c1) (Labels (gAlert e)) (firingAlerts ?c1) = Some p"
    using resolve.prems(3) find_resolve [OF resolve(3)] by simp
  ultimately show ?case using resolve(5) by blast
qed

lemma existing_no_nil:
  "existing_loop clk es c = Normal c' \<Longrightarrow> valid c \<Longrightarrow> e \<in> set es \<Longrightarrow> gStartsAt e \<noteq> None"
  by (induction rule: existing_loop_induct) auto

lemma existing_runs:
  "\<forall>e\<in>set es. gStartsAt e \<noteq> None \<Longrightarrow> \<exists>c'. existing_loop clk es c = Normal c'"
proof (induction es arbitrary: c)
  case Nil
  then show ?case by simp
next
  case (Cons e es)
  then obtain t where t: "gStartsAt e = Some t" by auto
  show ?case
  proof (cases "find_firing (heap c) (Labels (gAlert e)) (firingAlerts c)")
    case None
    show ?thesis using existing_unmatched [OF None t] Cons by simp
  next
    case (Some p)
    show ?thesis using existing_found [OF Some t] Cons by simp
  qed
qed

subsection \<open>From the query to the batch\<close>

lemma rows_loop_EndsAt:
  "map EndsAt (heap (rows_loop r clk cols raws c))
     = map EndsAt (heap c) @ replicate (length raws) None"
  by (induction raws arbitrary: c) (simp_all add: new_def Let_def replicate_app_Cons_same)

lemma run_query_start:
  "map (\<lambda>a. Labels (alert a)) (heap (run_query r clk q (start_cycle s))) = condition_labels r q
   \<and> firingAlerts (run_query r clk q (start_cycle s)) = [0 ..< length (condition_labels r q)]
   \<and> filteredAlerts (run_query r clk q (start_cycle s)) = []
   \<and> (\<forall>a\<in>set (heap (run_query r clk q (start_cycle s))). EndsAt a = None)"
proof (cases q)
  case (Rows cols raws failed)
  have "set (map EndsAt (heap (rows_loop r clk cols raws (start_cycle s)))) \<subseteq> {None}"
    by (subst rows_loop_EndsAt) (auto simp: start_cycle_def split_def)
  then have "\<forall>a\<in>set (heap (rows_loop r clk cols raws (start_cycle s))). EndsAt a = None"
    by auto
  then show ?thesis
    using Rows rows_loop_labels [of r clk cols raws "start_cycle s"]
      rows_loop_firing [of r clk cols raws "start_cycle s"]
      rows_loop_frame [of r clk cols raws "start_cycle s"]
    by (simp add: run_query_def condition_labels_def start_cycle_def split_def)
qed (simp_all add: run_query_def condition_labels_def start_cycle_def split_def)

lemma candidate_cycle_props:
  fixes r clk q s
  defines "c \<equiv> candidate_cycle r clk q s"
  shows "map (\<lambda>a. Labels (alert a)) (heap c) = condition_labels r q"
    and "firingAlerts c = [0 ..< length (condition_labels r q)]"
    and "length (heap c) = length (condition_labels r q)"
    and "subseq (filteredAlerts c) (firingAlerts c)"
    and "valid c"
    and "\<forall>a\<in>set (heap c). EndsAt a = None"
proof -
  let ?c0 = "run_query r clk q (start_cycle s)"
  have c: "c = filter_loop r clk (firingAlerts ?c0) ?c0"
    by (simp add: c_def candidate_cycle_def Let_def)
  have h: "heap c = heap ?c0" and f: "firingAlerts c = firingAlerts ?c0"
    using filter_loop_frame [of r clk "firingAlerts ?c0" ?c0] c by simp_all
  show 1: "map (\<lambda>a. Labels (alert a)) (heap c) = condition_labels r q"
    using h run_query_start by simp
  show 2: "firingAlerts c = [0 ..< length (condition_labels r q)]"
    using f run_query_start by simp
  show 3: "length (heap c) = length (condition_labels r q)"
    using 1 by (metis length_map)
  obtain sub where "filteredAlerts c = filteredAlerts ?c0 @ sub" "subseq sub (firingAlerts ?c0)"
    using filter_loop_sub [of r clk "firingAlerts ?c0" ?c0] c by auto
  then show "subseq (filteredAlerts c) (firingAlerts c)"
    using f run_query_start [of r clk q s] by simp
  show "valid c" using 2 3 by (simp add: valid_def)
  show "\<forall>a\<in>set (heap c). EndsAt a = None" using h run_query_start by simp
qed

lemma candidate_label:
  "p < length (condition_labels r q)
   \<Longrightarrow> Labels (alert (heap (candidate_cycle r clk q s) ! p)) = condition_labels r q ! p"
  using candidate_cycle_props(1) [of r clk q s] candidate_cycle_props(3) [of r clk q s]
  by (metis nth_map)

lemma tick_Posted:
  assumes "tick r clk inp s = (Posted batch, s')"
  obtains es c' where "fetch inp = Payload es"
    and "condition_labels r (query inp) \<noteq> []"
    and "existing_loop clk es (candidate_cycle r clk (query inp) s) = Normal c'"
    and "batch = map (\<lambda>p. heap c' ! p) (filteredAlerts c')"
    and "s' = (reads c', store c')"
proof -
  let ?c0 = "run_query r clk (query inp) (start_cycle s)"
  have ne: "firingAlerts ?c0 \<noteq> []"
    using assms by (auto simp: tick_def Let_def split: if_splits)
  then have cl: "condition_labels r (query inp) \<noteq> []"
    using run_query_start [of r clk "query inp" s] by auto
  have t: "tick r clk inp s =
      (case fetch inp of
         GetError \<Rightarrow> (ReturnGetFailed, reads (candidate_cycle r clk (query inp) s),
                        store (candidate_cycle r clk (query inp) s))
       | Payload es \<Rightarrow>
           (case existing_loop clk es (candidate_cycle r clk (query inp) s) of
              NilPanic c \<Rightarrow> (Panicked, reads c, store c)
            | Normal c \<Rightarrow> (Posted (map (\<lambda>p. heap c ! p) (filteredAlerts c)), reads c, store c)))"
    using ne by (simp add: tick_def candidate_cycle_def Let_def
        split: fetch_result.splits completion.splits)
  show ?thesis
    using assms that cl unfolding t
    by (auto split: fetch_result.splits completion.splits)
qed

lemma find_first:
  "m \<le> p \<Longrightarrow> p < n \<Longrightarrow> Labels (alert (h ! p)) = l
   \<Longrightarrow> \<forall>i<p. Labels (alert (h ! i)) \<noteq> l \<Longrightarrow> find_firing h l [m..<n] = Some p"
proof (induction "p - m" arbitrary: m)
  case 0
  then have "m = p" by simp
  then show ?case using 0 by (subst upt_rec) simp
next
  case (Suc d)
  then have "m < p" by simp
  then have "Labels (alert (h ! m)) \<noteq> l" using Suc.prems by blast
  moreover have "find_firing h l [Suc m..<n] = Some p"
    using Suc by (intro Suc.hyps(1)) auto
  ultimately show ?case using \<open>m < p\<close> Suc.prems(2) by (subst upt_rec) auto
qed

lemma map_nth_drop: "length xs = n + k \<Longrightarrow> map (\<lambda>p. xs ! p) [n ..< n + k] = drop n xs"
  by (rule nth_equalityI) simp_all

lemma map_fst_zip_fun:
  "length xs = length ys \<Longrightarrow> map (\<lambda>p. f (fst p)) (zip xs ys) = map f xs"
  by (induction xs ys rule: list_induct2) simp_all

lemma unmatched_candidate:
  "unmatched (candidate_cycle r clk q s) es
     = filter (\<lambda>e. Labels (gAlert e) \<notin> set (condition_labels r q)) es"
proof -
  let ?c = "candidate_cycle r clk q s"
  have "map (\<lambda>p. Labels (alert (heap ?c ! p))) [0..<length (heap ?c)]
      = map (\<lambda>a. Labels (alert a)) (heap ?c)"
    by (rule nth_equalityI) simp_all
  then have "map (\<lambda>p. Labels (alert (heap ?c ! p))) (firingAlerts ?c) = condition_labels r q"
    using candidate_cycle_props(1,2,3) [of r clk q s] by simp
  then show ?thesis by (simp add: unmatched_def find_firing_None)
qed

lemma tick_batch:
  assumes "tick r clk inp s = (Posted batch, s')" and "fetch inp = Payload es"
  obtains c' where "existing_loop clk es (candidate_cycle r clk (query inp) s) = Normal c'"
    and "batch = map (\<lambda>p. heap c' ! p) (filteredAlerts (candidate_cycle r clk (query inp) s))
           @ drop (length (condition_labels r (query inp))) (heap c')"
    and "s' = (reads c', store c')"
proof -
  let ?c = "candidate_cycle r clk (query inp) s"
  obtain es' c' where 1: "fetch inp = Payload es'" "existing_loop clk es' ?c = Normal c'"
      "batch = map (\<lambda>p. heap c' ! p) (filteredAlerts c')" "s' = (reads c', store c')"
    using assms(1) by (rule tick_Posted)
  have run: "existing_loop clk es ?c = Normal c'" using 1 assms(2) by simp
  have v: "valid ?c" by (rule candidate_cycle_props)
  have n: "length (heap ?c) = length (condition_labels r (query inp))"
    by (rule candidate_cycle_props)
  have "batch = map (\<lambda>p. heap c' ! p) (filteredAlerts ?c)
      @ drop (length (condition_labels r (query inp))) (heap c')"
    using existing_counts [OF run v] 1(3) n by (simp add: map_nth_drop)
  then show ?thesis using that run 1(4) by blast
qed

text \<open>
  C1. Condition instances with identical label mappings are not merged: the batch opens
  with one alert for every pointer of the candidate-submit set, in order and with the
  labels of its condition instance. The batch holds at most one alert per label mapping
  when no two condition instances of the cycle carry the same label mapping and no two
  alerts of the backend's answer do.
\<close>

theorem batch_labels:
  assumes "tick r clk inp s = (Posted batch, s')" and "fetch inp = Payload es"
  shows "map (\<lambda>a. Labels (alert a))
           (take (length (filteredAlerts (candidate_cycle r clk (query inp) s))) batch)
         = map (\<lambda>p. condition_labels r (query inp) ! p)
             (filteredAlerts (candidate_cycle r clk (query inp) s))
    \<and> (distinct (condition_labels r (query inp)) \<and> distinct (map (\<lambda>e. Labels (gAlert e)) es)
        \<longrightarrow> distinct (map (\<lambda>a. Labels (alert a)) batch))"
proof -
  let ?c = "candidate_cycle r clk (query inp) s"
  let ?CL = "condition_labels r (query inp)"
  let ?U = "filter (\<lambda>e. Labels (gAlert e) \<notin> set ?CL) es"
  obtain c' where run: "existing_loop clk es ?c = Normal c'"
    and batch: "batch = map (\<lambda>p. heap c' ! p) (filteredAlerts ?c) @ drop (length ?CL) (heap c')"
    using assms(1,2) by (rule tick_batch)
  have v: "valid ?c" by (rule candidate_cycle_props)
  have n: "length (heap ?c) = length ?CL" by (rule candidate_cycle_props)
  have sub: "subseq (filteredAlerts ?c) [0..<length ?CL]"
    using candidate_cycle_props(4) [of r clk "query inp" s]
      candidate_cycle_props(2) [of r clk "query inp" s] by simp
  have first: "map (\<lambda>a. Labels (alert a)) (map (\<lambda>p. heap c' ! p) (filteredAlerts ?c))
      = map (\<lambda>p. ?CL ! p) (filteredAlerts ?c)"
  proof (simp, intro ballI)
    fix p assume "p \<in> set (filteredAlerts ?c)"
    then have p: "p < length ?CL" using subseq_subset [OF sub] by auto
    then have "alert (heap c' ! p) = alert (heap ?c ! p)"
      using existing_fields [OF run v] n by simp
    then show "Labels (alert (heap c' ! p)) = ?CL ! p"
      using candidate_label [OF p] by simp
  qed
  have "take (length (filteredAlerts ?c)) batch = map (\<lambda>p. heap c' ! p) (filteredAlerts ?c)"
    unfolding batch by simp
  then have front: "map (\<lambda>a. Labels (alert a)) (take (length (filteredAlerts ?c)) batch)
      = map (\<lambda>p. ?CL ! p) (filteredAlerts ?c)"
    using first by simp
  have "subseq (map (\<lambda>p. ?CL ! p) (filteredAlerts ?c)) (map (\<lambda>p. ?CL ! p) [0..<length ?CL])"
    using sub by (rule subseq_map)
  then have sub2: "subseq (map (\<lambda>p. ?CL ! p) (filteredAlerts ?c)) ?CL"
    by (simp add: map_nth)
  have "map (\<lambda>a. Labels (alert a)) (drop (length ?CL) (heap c'))
      = map (\<lambda>p. Labels (gAlert (fst p))) (zip ?U [reads ?c ..< reads ?c + length ?U])"
    using existing_tail [OF run v] n unmatched_candidate [of r clk "query inp" s es]
    by (simp add: split_def comp_def)
  also have "\<dots> = map (\<lambda>e. Labels (gAlert e)) ?U"
    by (rule map_fst_zip_fun) simp
  finally have second: "map (\<lambda>a. Labels (alert a)) (drop (length ?CL) (heap c'))
      = map (\<lambda>e. Labels (gAlert e)) ?U" .
  have all: "map (\<lambda>a. Labels (alert a)) batch
      = map (\<lambda>p. ?CL ! p) (filteredAlerts ?c) @ map (\<lambda>e. Labels (gAlert e)) ?U"
    unfolding batch map_append first second ..
  have "distinct (map (\<lambda>a. Labels (alert a)) batch)"
    if d: "distinct ?CL" "distinct (map (\<lambda>e. Labels (gAlert e)) es)"
  proof -
    have d1: "distinct (map (\<lambda>p. ?CL ! p) (filteredAlerts ?c))"
      using sub2 d(1) by (rule subseq_distinct)
    have d2: "distinct (map (\<lambda>e. Labels (gAlert e)) ?U)"
      using d(2) by (rule distinct_map_filter)
    have d3: "set (map (\<lambda>p. ?CL ! p) (filteredAlerts ?c))
        \<inter> set (map (\<lambda>e. Labels (gAlert e)) ?U) = {}"
      using subseq_subset [OF sub2] by auto
    show ?thesis using all d1 d2 d3 by (simp only: distinct_append simp_thms)
  qed
  then show ?thesis using front by blast
qed

lemma tick_no_rows:
  "condition_labels r (query inp) = [] \<Longrightarrow> tick r clk inp s = (ReturnNoAlerts, s)"
proof -
  assume "condition_labels r (query inp) = []"
  then have "firingAlerts (run_query r clk (query inp) (start_cycle s)) = []"
    using run_query_start [of r clk "query inp" s] by simp
  moreover have "run_query r clk (query inp) (start_cycle s) = start_cycle s"
    using \<open>condition_labels r (query inp) = []\<close>
    by (cases "query inp") (auto simp: run_query_def condition_labels_def)
  ultimately show ?thesis
    by (cases s) (simp add: tick_def start_cycle_def)
qed

lemma tick_rows:
  assumes "condition_labels r (query inp) \<noteq> []"
  shows "tick r clk inp s =
      (case fetch inp of
         GetError \<Rightarrow> (ReturnGetFailed, reads (candidate_cycle r clk (query inp) s),
                        store (candidate_cycle r clk (query inp) s))
       | Payload es \<Rightarrow>
           (case existing_loop clk es (candidate_cycle r clk (query inp) s) of
              NilPanic c \<Rightarrow> (Panicked, reads c, store c)
            | Normal c \<Rightarrow> (Posted (map (\<lambda>p. heap c ! p) (filteredAlerts c)), reads c, store c)))"
proof -
  have "firingAlerts (run_query r clk (query inp) (start_cycle s)) \<noteq> []"
    using assms run_query_start [of r clk "query inp" s] by simp
  then show ?thesis
    by (simp add: tick_def candidate_cycle_def Let_def
        split: fetch_result.splits completion.splits)
qed

text \<open>
  What a posted batch holds after the candidates, and what the store holds then: the
  record of every unmatched existing alert is gone and every other record is as the
  candidate cycle left it.
\<close>

lemma posted_resolved:
  fixes r clk inp s es
  defines "cand \<equiv> filteredAlerts (candidate_cycle r clk (query inp) s)"
    and "n0 \<equiv> reads (candidate_cycle r clk (query inp) s)"
    and "U \<equiv> filter (\<lambda>e. Labels (gAlert e) \<notin> set (condition_labels r (query inp))) es"
  assumes "tick r clk inp s = (Posted batch, n', m')" and "fetch inp = Payload es"
  shows "length batch = length cand + length U
    \<and> map (\<lambda>a. (alert a, Some (StartsAt a), EndsAt a)) (drop (length cand) batch)
        = map (\<lambda>(e, n). (gAlert e, gStartsAt e, Some (clk n))) (zip U [n0 ..< n0 + length U])
    \<and> (\<forall>e\<in>set U. state m' (key (Labels (gAlert e))) = None)
    \<and> (\<forall>k. k \<notin> (\<lambda>e. key (Labels (gAlert e))) ` set U
          \<longrightarrow> state m' k = state (store (candidate_cycle r clk (query inp) s)) k)"
proof -
  let ?c = "candidate_cycle r clk (query inp) s"
  let ?CL = "condition_labels r (query inp)"
  obtain c' where run: "existing_loop clk es ?c = Normal c'"
    and batch: "batch = map (\<lambda>p. heap c' ! p) (filteredAlerts ?c) @ drop (length ?CL) (heap c')"
    and s': "(n', m') = (reads c', store c')"
    using assms(4,5) by (rule tick_batch)
  have v: "valid ?c" by (rule candidate_cycle_props)
  have n: "length (heap ?c) = length ?CL" by (rule candidate_cycle_props)
  have U: "unmatched ?c es = U"
    using unmatched_candidate [of r clk "query inp" s es] by (simp add: U_def)
  have tail: "drop (length ?CL) (heap c')
      = map (\<lambda>(e, n). \<lparr>Annotations = Map.empty, EndsAt = Some (clk n),
                          StartsAt = the (gStartsAt e), alert = gAlert e\<rparr>)
          (zip U [n0 ..< n0 + length U])"
    using existing_tail [OF run v] n U by (simp add: n0_def)
  have len: "length batch = length cand + length U"
    unfolding batch tail by (simp add: cand_def)
  have "drop (length cand) batch = drop (length ?CL) (heap c')"
    unfolding batch by (simp add: cand_def)
  then have "map (\<lambda>a. (alert a, Some (StartsAt a), EndsAt a)) (drop (length cand) batch)
      = map (\<lambda>(e, n). (gAlert e, Some (the (gStartsAt e)), Some (clk n)))
          (zip U [n0 ..< n0 + length U])"
    unfolding tail by (simp add: split_def comp_def)
  also have "\<dots> = map (\<lambda>(e, n). (gAlert e, gStartsAt e, Some (clk n)))
      (zip U [n0 ..< n0 + length U])"
  proof (rule map_cong [OF refl])
    fix x assume "x \<in> set (zip U [n0 ..< n0 + length U])"
    then have "fst x \<in> set U" by (metis prod.collapse set_zip_leftD)
    then have "fst x \<in> set es" by (simp add: U_def)
    then have "gStartsAt (fst x) \<noteq> None" using existing_no_nil [OF run v] by blast
    then show "(case x of (e, n) \<Rightarrow> (gAlert e, Some (the (gStartsAt e)), Some (clk n)))
        = (case x of (e, n) \<Rightarrow> (gAlert e, gStartsAt e, Some (clk n)))"
      by (cases x) auto
  qed
  finally have proj: "map (\<lambda>a. (alert a, Some (StartsAt a), EndsAt a)) (drop (length cand) batch)
      = map (\<lambda>(e, n). (gAlert e, gStartsAt e, Some (clk n))) (zip U [n0 ..< n0 + length U])" .
  have gone: "\<forall>e\<in>set U. state (store c') (key (Labels (gAlert e))) = None"
    using existing_store [OF run v] U by simp
  have kept: "\<forall>k. k \<notin> (\<lambda>e. key (Labels (gAlert e))) ` set U
      \<longrightarrow> state (store c') k = state (store ?c) k"
    using existing_store [OF run v] U by simp
  show ?thesis using len proj gone kept s' by simp
qed

text \<open>
  C2. In a cycle with at least one condition instance, in which \<^verbatim>\<open>GetAlerts\<close> answers and
  every alert of the answer has a start instant, a batch is posted, and for every
  existing alert whose labels are those of no condition instance of the cycle, whether
  or not an instance passed the threshold, exactly one alert is appended to the batch
  after the candidates, in the order of the backend's answer: it carries the labels and
  generator URL of the existing alert, its start instant and an end instant read from
  the clock at that moment. Afterwards the store holds no record for the identity of
  any of these existing alerts, and every other record is as it was before the loop over
  the existing alerts.
\<close>

theorem resolved_appended:
  fixes r clk inp s es
  defines "cand \<equiv> filteredAlerts (candidate_cycle r clk (query inp) s)"
    and "n0 \<equiv> reads (candidate_cycle r clk (query inp) s)"
    and "U \<equiv> filter (\<lambda>e. Labels (gAlert e) \<notin> set (condition_labels r (query inp))) es"
  assumes "condition_labels r (query inp) \<noteq> []" and "fetch inp = Payload es"
    and "\<forall>e\<in>set es. gStartsAt e \<noteq> None"
  shows "\<exists>batch n' m'. tick r clk inp s = (Posted batch, n', m')
    \<and> length batch = length cand + length U
    \<and> map (\<lambda>a. (alert a, Some (StartsAt a), EndsAt a)) (drop (length cand) batch)
        = map (\<lambda>(e, n). (gAlert e, gStartsAt e, Some (clk n))) (zip U [n0 ..< n0 + length U])
    \<and> (\<forall>e\<in>set U. state m' (key (Labels (gAlert e))) = None)
    \<and> (\<forall>k. k \<notin> (\<lambda>e. key (Labels (gAlert e))) ` set U
          \<longrightarrow> state m' k = state (store (candidate_cycle r clk (query inp) s)) k)"
proof -
  obtain c' where "existing_loop clk es (candidate_cycle r clk (query inp) s) = Normal c'"
    using assms(6) existing_runs by blast
  then have "tick r clk inp s
      = (Posted (map (\<lambda>p. heap c' ! p) (filteredAlerts c')), reads c', store c')"
    using assms(4,5) by (simp add: tick_rows)
  then show ?thesis
    using posted_resolved [OF _ assms(5)] unfolding cand_def n0_def U_def by blast
qed

text \<open>
  C3. When the existing alerts of the backend's answer carry pairwise distinct label
  mappings, and \<open>p\<close> is the first condition instance of the cycle with the labels of an
  existing alert, and \<open>p\<close> stands at position \<open>i\<close> of the candidate-submit set, then the
  alert at position \<open>i\<close> of the batch carries those labels, the start instant of the
  existing alert and no end instant.
\<close>

theorem start_time_continuity:
  assumes "tick r clk inp s = (Posted batch, s')" and "fetch inp = Payload es"
    and "e \<in> set es" and "distinct (map (\<lambda>e. Labels (gAlert e)) es)"
    and "p < length (condition_labels r (query inp))"
    and "condition_labels r (query inp) ! p = Labels (gAlert e)"
    and "\<forall>i<p. condition_labels r (query inp) ! i \<noteq> Labels (gAlert e)"
    and "i < length (filteredAlerts (candidate_cycle r clk (query inp) s))"
    and "filteredAlerts (candidate_cycle r clk (query inp) s) ! i = p"
  shows "i < length batch \<and> Labels (alert (batch ! i)) = Labels (gAlert e)
    \<and> gStartsAt e = Some (StartsAt (batch ! i)) \<and> EndsAt (batch ! i) = None"
proof -
  let ?c = "candidate_cycle r clk (query inp) s"
  let ?CL = "condition_labels r (query inp)"
  obtain c' where run: "existing_loop clk es ?c = Normal c'"
    and batch: "batch = map (\<lambda>p. heap c' ! p) (filteredAlerts ?c) @ drop (length ?CL) (heap c')"
    using assms(1,2) by (rule tick_batch)
  have v: "valid ?c" by (rule candidate_cycle_props)
  have n: "length (heap ?c) = length ?CL" by (rule candidate_cycle_props)
  have at: "batch ! i = heap c' ! p" and len: "i < length batch"
    unfolding batch using assms(8,9) by (simp_all add: nth_append)
  have "\<forall>j<p. Labels (alert (heap ?c ! j)) \<noteq> Labels (gAlert e)"
    using assms(5,7) candidate_label [of _ r "query inp" clk s] by simp
  then have "find_firing (heap ?c) (Labels (gAlert e)) [0 ..< length ?CL] = Some p"
    using assms(5,6) candidate_label [OF assms(5), of clk s] by (intro find_first) simp_all
  then have found: "find_firing (heap ?c) (Labels (gAlert e)) (firingAlerts ?c) = Some p"
    using candidate_cycle_props(2) [of r clk "query inp" s] by simp
  have starts: "gStartsAt e = Some (StartsAt (heap c' ! p))"
    using run v assms(3,4) found by (rule existing_starts)
  have same: "alert (heap c' ! p) = alert (heap ?c ! p)" "EndsAt (heap c' ! p) = EndsAt (heap ?c ! p)"
    using existing_fields [OF run v, of p] assms(5) n by simp_all
  have "heap ?c ! p \<in> set (heap ?c)" using assms(5) n by simp
  then have "EndsAt (heap ?c ! p) = None"
    using candidate_cycle_props(6) [of r clk "query inp" s] by blast
  then show ?thesis
    using at len starts same candidate_label [OF assms(5), of clk s] assms(6) by simp
qed

text \<open>
  C5. Nothing is posted in a cycle whose query gave no condition instance, nor in one
  whose \<^verbatim>\<open>GetAlerts\<close> failed; in a cycle with a condition instance and an answer in which
  every alert has a start instant, a batch is posted, empty or not.
\<close>

theorem post_gate:
  "((condition_labels r (query inp) = [] \<or> fetch inp = GetError)
      \<longrightarrow> (\<forall>batch. fst (tick r clk inp s) \<noteq> Posted batch))
   \<and> (condition_labels r (query inp) \<noteq> [] \<and> fetch inp = Payload es
        \<and> (\<forall>e\<in>set es. gStartsAt e \<noteq> None)
      \<longrightarrow> (\<exists>batch. fst (tick r clk inp s) = Posted batch))"
proof (intro conjI impI)
  assume "condition_labels r (query inp) = [] \<or> fetch inp = GetError"
  then show "\<forall>batch. fst (tick r clk inp s) \<noteq> Posted batch"
  proof
    assume "condition_labels r (query inp) = []"
    then show ?thesis by (simp add: tick_no_rows)
  next
    assume g: "fetch inp = GetError"
    show ?thesis
    proof (cases "condition_labels r (query inp) = []")
      case True
      then show ?thesis by (simp add: tick_no_rows)
    next
      case False
      then show ?thesis using g by (simp add: tick_rows)
    qed
  qed
next
  assume a: "condition_labels r (query inp) \<noteq> [] \<and> fetch inp = Payload es
      \<and> (\<forall>e\<in>set es. gStartsAt e \<noteq> None)"
  then obtain c' where "existing_loop clk es (candidate_cycle r clk (query inp) s) = Normal c'"
    using existing_runs by blast
  then show "\<exists>batch. fst (tick r clk inp s) = Posted batch"
    using a by (simp add: tick_rows)
qed

subsection \<open>The goroutine of a rule\<close>

text \<open>
  C4. A tick whose query gives no row, or fails, ends the goroutine of the rule although
  \<^verbatim>\<open>ctx.Done()\<close> was never taken: whatever \<^verbatim>\<open>select\<close> would take next is never looked at.
  So does a tick whose \<^verbatim>\<open>GetAlerts\<close> fails. The loop does not go back to waiting for
  the next tick.
\<close>

theorem rule_exits_without_cancel:
  "rule_loop r clk (Tick \<lparr>query = Rows cols [] failed, fetch = f\<rparr> # evs) s
     = (Exited ReturnNoAlerts, [], s)
   \<and> rule_loop r clk (Tick \<lparr>query = QueryError, fetch = f\<rparr> # evs) s
     = (Exited ReturnNoAlerts, [], s)
   \<and> rule_loop r clk (Tick \<lparr>query = ColumnsError, fetch = f\<rparr> # evs) s
     = (Exited ReturnNoAlerts, [], s)
   \<and> fst (rule_loop r clk (Tick \<lparr>query = Rows cols (raw # raws) failed, fetch = GetError\<rparr> # evs) s)
     = Exited ReturnGetFailed"
proof -
  have 1: "tick r clk \<lparr>query = Rows cols [] failed, fetch = f\<rparr> s = (ReturnNoAlerts, s)"
    by (rule tick_no_rows) (simp add: condition_labels_def)
  have 2: "tick r clk \<lparr>query = QueryError, fetch = f\<rparr> s = (ReturnNoAlerts, s)"
    by (rule tick_no_rows) (simp add: condition_labels_def)
  have 3: "tick r clk \<lparr>query = ColumnsError, fetch = f\<rparr> s = (ReturnNoAlerts, s)"
    by (rule tick_no_rows) (simp add: condition_labels_def)
  have 4: "fst (tick r clk \<lparr>query = Rows cols (raw # raws) failed, fetch = GetError\<rparr> s)
      = ReturnGetFailed"
    by (subst tick_rows) (simp_all add: condition_labels_def)
  show ?thesis using 1 2 3 4 by (simp add: split_def)
qed

section \<open>The evaluation at the concrete inputs\<close>

text \<open>The cycle is evaluated loop by loop, so that every step stays small.\<close>

lemma labels_db1:
  "labels_of disk_rule [''host'', ''summary''] [Some ''db1'', Some v] = db1_labels"
  "labels_of slow_rule [''host'', ''summary''] [Some ''db1'', Some v] = db1_labels"
  by (simp_all add: labels_of_def pick_def row_of_def index_def disk_rule_def slow_rule_def
      db1_labels_def)

lemma annotations_db1:
  "annotations_of disk_rule [''host'', ''summary''] [Some ''db1'', Some ''full'']
     = [''summary'' \<mapsto> ''full'']"
  "annotations_of disk_rule [''host'', ''summary''] [Some ''db1'', Some ''nearly full'']
     = [''summary'' \<mapsto> ''nearly full'']"
  "annotations_of slow_rule [''host'', ''summary''] [Some ''db1'', Some ''full'']
     = [''summary'' \<mapsto> ''full'']"
  by (simp_all add: annotations_of_def pick_def row_of_def index_def disk_rule_def slow_rule_def)

lemma key_db1: "key db1_labels = ''alertname=disk,host=db1''"
proof -
  have d: "dom db1_labels = set [''host'', ''alertname'']"
    by (auto simp: db1_labels_def)
  show ?thesis
    unfolding key_def key_range_def d sorted_list_of_set_sort_remdups
    by (simp add: index_def db1_labels_def)
qed

lemma key_db2: "key db2_labels = ''alertname=disk,host=db2''"
proof -
  have d: "dom db2_labels = set [''host'', ''alertname'']"
    by (auto simp: db2_labels_def)
  show ?thesis
    unfolding key_def key_range_def d sorted_list_of_set_sort_remdups
    by (simp add: index_def db2_labels_def)
qed

lemma db_labels_differ: "db2_labels \<noteq> db1_labels"
proof -
  have "db2_labels ''host'' \<noteq> db1_labels ''host''"
    by (simp add: db1_labels_def db2_labels_def)
  then show ?thesis by metis
qed

lemma rule_fields:
  "For disk_rule = 0" "For slow_rule = 120000000000"
  by (simp_all add: disk_rule_def slow_rule_def)

lemma alert_fields:
  "Labels (alert first_alert) = db1_labels" "Labels (alert second_alert) = db1_labels"
  "Labels (alert continued_alert) = db1_labels" "Labels (alert resolved_db2) = db2_labels"
  "Labels (gAlert active_db1) = db1_labels" "Labels (gAlert active_db2) = db2_labels"
  "gStartsAt active_db1 = Some 40000000000" "gStartsAt active_db2 = Some 50000000000"
  by (simp_all add: first_alert_def second_alert_def continued_alert_def resolved_db2_def
      active_db1_def active_db2_def)

lemma condition_labels_rows:
  "condition_labels disk_rule no_rows = []"
  "condition_labels slow_rule no_rows = []"
  "condition_labels disk_rule one_row = [db1_labels]"
  "condition_labels slow_rule one_row = [db1_labels]"
  "condition_labels disk_rule two_rows = [db1_labels, db1_labels]"
  by (simp_all add: condition_labels_def no_rows_def one_row_def two_rows_def labels_db1)

lemma query_two_rows:
  "run_query disk_rule seconds two_rows (start_cycle fresh_store)
     = \<lparr>heap = [first_alert, second_alert], firingAlerts = [0, Suc 0], filteredAlerts = [],
        reads = 102, store = NewManager ''alertstate.json''\<rparr>"
  by (simp add: run_query_def two_rows_def start_cycle_def fresh_store_def new_def Let_def
      labels_db1 annotations_db1 seconds_def first_alert_def second_alert_def)

lemma filter_two_rows:
  "filter_loop disk_rule seconds [0, Suc 0]
     \<lparr>heap = [first_alert, second_alert], firingAlerts = [0, Suc 0], filteredAlerts = [],
      reads = 102, store = NewManager ''alertstate.json''\<rparr>
   = \<lparr>heap = [first_alert, second_alert], firingAlerts = [0, Suc 0],
      filteredAlerts = [0, Suc 0], reads = 105,
      store = \<lparr>state = [''alertname=disk,host=db1'' \<mapsto> 102000000000],
                filePath = ''alertstate.json''\<rparr>\<rparr>"
  by (simp add: Let_def alert_fields key_db1 rule_fields MarkActive_def ShouldFire_def
      NewManager_def seconds_def Since_def minDuration_def maxDuration_def)

lemma candidates_two_rows:
  "candidate_cycle disk_rule seconds two_rows fresh_store
     = \<lparr>heap = [first_alert, second_alert], firingAlerts = [0, Suc 0],
        filteredAlerts = [0, Suc 0], reads = 105,
        store = \<lparr>state = [''alertname=disk,host=db1'' \<mapsto> 102000000000],
                  filePath = ''alertstate.json''\<rparr>\<rparr>"
  by (simp add: candidate_cycle_def query_two_rows filter_two_rows Let_def
      del: filter_loop.simps)

lemma query_one_row:
  "run_query disk_rule seconds one_row (start_cycle fresh_store)
     = \<lparr>heap = [first_alert], firingAlerts = [0], filteredAlerts = [],
        reads = 101, store = NewManager ''alertstate.json''\<rparr>"
  "run_query slow_rule seconds one_row (start_cycle fresh_store)
     = \<lparr>heap = [first_alert], firingAlerts = [0], filteredAlerts = [],
        reads = 101, store = NewManager ''alertstate.json''\<rparr>"
  by (simp_all add: run_query_def one_row_def start_cycle_def fresh_store_def new_def Let_def
      labels_db1 annotations_db1 seconds_def first_alert_def)

lemma filter_one_row:
  "filter_loop disk_rule seconds [0]
     \<lparr>heap = [first_alert], firingAlerts = [0], filteredAlerts = [],
      reads = 101, store = NewManager ''alertstate.json''\<rparr>
   = \<lparr>heap = [first_alert], firingAlerts = [0], filteredAlerts = [0], reads = 103,
      store = \<lparr>state = [''alertname=disk,host=db1'' \<mapsto> 101000000000],
                filePath = ''alertstate.json''\<rparr>\<rparr>"
  "filter_loop slow_rule seconds [0]
     \<lparr>heap = [first_alert], firingAlerts = [0], filteredAlerts = [],
      reads = 101, store = NewManager ''alertstate.json''\<rparr>
   = \<lparr>heap = [first_alert], firingAlerts = [0], filteredAlerts = [], reads = 103,
      store = \<lparr>state = [''alertname=disk,host=db1'' \<mapsto> 101000000000],
                filePath = ''alertstate.json''\<rparr>\<rparr>"
  by (simp_all add: Let_def alert_fields key_db1 rule_fields MarkActive_def ShouldFire_def
      NewManager_def seconds_def Since_def minDuration_def maxDuration_def)

lemma candidates_one_row:
  "candidate_cycle disk_rule seconds one_row fresh_store
     = \<lparr>heap = [first_alert], firingAlerts = [0], filteredAlerts = [0], reads = 103,
        store = \<lparr>state = [''alertname=disk,host=db1'' \<mapsto> 101000000000],
                  filePath = ''alertstate.json''\<rparr>\<rparr>"
  "candidate_cycle slow_rule seconds one_row fresh_store
     = \<lparr>heap = [first_alert], firingAlerts = [0], filteredAlerts = [], reads = 103,
        store = \<lparr>state = [''alertname=disk,host=db1'' \<mapsto> 101000000000],
                  filePath = ''alertstate.json''\<rparr>\<rparr>"
  by (simp_all add: candidate_cycle_def query_one_row filter_one_row Let_def
      del: filter_loop.simps)

lemma continued: "first_alert\<lparr>StartsAt := 40000000000\<rparr> = continued_alert"
  by (simp add: first_alert_def continued_alert_def)

lemma tick_two_rows_alone:
  "tick disk_rule seconds \<lparr>query = two_rows, fetch = Payload []\<rparr> fresh_store
     = (Posted [first_alert, second_alert], 105,
        \<lparr>state = [''alertname=disk,host=db1'' \<mapsto> 102000000000],
          filePath = ''alertstate.json''\<rparr>)"
  by (simp add: tick_rows condition_labels_rows candidates_two_rows)

lemma tick_two_rows_active:
  "tick disk_rule seconds \<lparr>query = two_rows, fetch = Payload [active_db1]\<rparr> fresh_store
     = (Posted [continued_alert, second_alert], 105,
        \<lparr>state = [''alertname=disk,host=db1'' \<mapsto> 102000000000],
          filePath = ''alertstate.json''\<rparr>)"
  by (simp add: tick_rows condition_labels_rows candidates_two_rows alert_fields continued)

lemma tick_slow_active:
  "tick slow_rule seconds \<lparr>query = one_row, fetch = Payload [active_db1]\<rparr> fresh_store
     = (Posted [], 103,
        \<lparr>state = [''alertname=disk,host=db1'' \<mapsto> 101000000000],
          filePath = ''alertstate.json''\<rparr>)"
  by (simp add: tick_rows condition_labels_rows candidates_one_row alert_fields)

lemma tick_slow_alone:
  "tick slow_rule seconds \<lparr>query = one_row, fetch = Payload []\<rparr> fresh_store
     = (Posted [], 103,
        \<lparr>state = [''alertname=disk,host=db1'' \<mapsto> 101000000000],
          filePath = ''alertstate.json''\<rparr>)"
  by (simp add: tick_rows condition_labels_rows candidates_one_row)

lemma tick_one_row_other:
  "tick disk_rule seconds \<lparr>query = one_row, fetch = Payload [active_db2]\<rparr> fresh_store
     = (Posted [first_alert, resolved_db2], 104,
        \<lparr>state = [''alertname=disk,host=db1'' \<mapsto> 101000000000],
          filePath = ''alertstate.json''\<rparr>)"
  by (simp add: tick_rows condition_labels_rows candidates_one_row alert_fields
      db_labels_differ new_def MarkResolved_def key_db2 seconds_def resolved_db2_def
      active_db2_def)

lemma labels_db2:
  "labels_of disk_rule [''host'', ''summary''] [Some ''db2'', Some v] = db2_labels"
  by (simp add: labels_of_def pick_def row_of_def index_def disk_rule_def db2_labels_def)

lemma annotations_db2:
  "annotations_of disk_rule [''host'', ''summary''] [Some ''db2'', Some ''full'']
     = [''summary'' \<mapsto> ''full'']"
  by (simp add: annotations_of_def pick_def row_of_def index_def disk_rule_def)

lemma more_alert_fields:
  "Labels (alert other_alert) = db2_labels" "Labels (alert late_alert) = db1_labels"
  by (simp_all add: other_alert_def late_alert_def)

lemma condition_labels_mixed:
  "condition_labels disk_rule mixed_rows = [db2_labels, db1_labels]"
  by (simp add: condition_labels_def mixed_rows_def labels_db1 labels_db2)

lemma query_mixed_rows:
  "run_query disk_rule seconds mixed_rows (start_cycle fresh_store)
     = \<lparr>heap = [other_alert, late_alert], firingAlerts = [0, Suc 0], filteredAlerts = [],
        reads = 102, store = NewManager ''alertstate.json''\<rparr>"
  by (simp add: run_query_def mixed_rows_def start_cycle_def fresh_store_def new_def Let_def
      labels_db1 labels_db2 annotations_db1 annotations_db2 seconds_def other_alert_def
      late_alert_def)

lemma filter_mixed_rows:
  "filter_loop disk_rule seconds [0, Suc 0]
     \<lparr>heap = [other_alert, late_alert], firingAlerts = [0, Suc 0], filteredAlerts = [],
      reads = 102, store = NewManager ''alertstate.json''\<rparr>
   = \<lparr>heap = [other_alert, late_alert], firingAlerts = [0, Suc 0],
      filteredAlerts = [0, Suc 0], reads = 106,
      store = \<lparr>state = [''alertname=disk,host=db2'' \<mapsto> 102000000000,
                          ''alertname=disk,host=db1'' \<mapsto> 104000000000],
                filePath = ''alertstate.json''\<rparr>\<rparr>"
  by (simp add: Let_def more_alert_fields key_db1 key_db2 rule_fields MarkActive_def
      ShouldFire_def NewManager_def seconds_def Since_def minDuration_def maxDuration_def)

lemma candidates_mixed_rows:
  "candidate_cycle disk_rule seconds mixed_rows fresh_store
     = \<lparr>heap = [other_alert, late_alert], firingAlerts = [0, Suc 0],
        filteredAlerts = [0, Suc 0], reads = 106,
        store = \<lparr>state = [''alertname=disk,host=db2'' \<mapsto> 102000000000,
                            ''alertname=disk,host=db1'' \<mapsto> 104000000000],
                  filePath = ''alertstate.json''\<rparr>\<rparr>"
  by (simp add: candidate_cycle_def query_mixed_rows filter_mixed_rows Let_def
      del: filter_loop.simps)

lemma late_continued: "late_alert\<lparr>StartsAt := 40000000000\<rparr> = continued_alert"
  by (simp add: late_alert_def continued_alert_def)

lemma tick_mixed_rows_active:
  "tick disk_rule seconds \<lparr>query = mixed_rows, fetch = Payload [active_db1]\<rparr> fresh_store
     = (Posted [other_alert, continued_alert], 106,
        \<lparr>state = [''alertname=disk,host=db2'' \<mapsto> 102000000000,
                    ''alertname=disk,host=db1'' \<mapsto> 104000000000],
          filePath = ''alertstate.json''\<rparr>)"
  using db_labels_differ
  by (simp add: tick_rows condition_labels_mixed candidates_mixed_rows alert_fields
      more_alert_fields late_continued eq_commute [of db1_labels db2_labels])

subsection \<open>What the evaluations show\<close>

text \<open>Two rows for the same host, both past the threshold: the batch holds two alerts with the same label mapping, hence the same identity.\<close>

theorem duplicates_submitted:
  "tick disk_rule seconds \<lparr>query = two_rows, fetch = Payload []\<rparr> fresh_store
     = (Posted [first_alert, second_alert], 105,
        \<lparr>state = [''alertname=disk,host=db1'' \<mapsto> 102000000000],
          filePath = ''alertstate.json''\<rparr>)
   \<and> condition_labels disk_rule two_rows = [db1_labels, db1_labels]
   \<and> Labels (alert first_alert) = db1_labels \<and> Labels (alert second_alert) = db1_labels
   \<and> key db1_labels = ''alertname=disk,host=db1''"
  using tick_two_rows_alone condition_labels_rows(5) alert_fields(1,2) key_db1 by simp

text \<open>One row for \<open>db1\<close> and an existing alert for \<open>db2\<close>: the label mappings of the batch are pairwise distinct.\<close>

theorem batch_labels_witness:
  "tick disk_rule seconds \<lparr>query = one_row, fetch = Payload [active_db2]\<rparr> fresh_store
     = (Posted [first_alert, resolved_db2], 104,
        \<lparr>state = [''alertname=disk,host=db1'' \<mapsto> 101000000000],
          filePath = ''alertstate.json''\<rparr>)
   \<and> distinct (condition_labels disk_rule one_row)
   \<and> distinct (map (\<lambda>e. Labels (gAlert e)) [active_db2])
   \<and> distinct (map (\<lambda>a. Labels (alert a)) [first_alert, resolved_db2])"
proof -
  have f: "fetch \<lparr>query = one_row, fetch = Payload [active_db2]\<rparr> = Payload [active_db2]"
    by simp
  have d: "distinct (condition_labels disk_rule one_row)"
    "distinct (map (\<lambda>e. Labels (gAlert e)) [active_db2])"
    by (simp_all add: condition_labels_rows)
  show ?thesis
    using batch_labels [OF tick_one_row_other f] tick_one_row_other d by simp
qed

text \<open>With a threshold of two minutes the one condition instance is not yet a candidate, so the existing alert for \<open>db1\<close> matches no candidate; yet nothing is appended for it and its record stays in the store. In the second cycle the alert appended for \<open>db2\<close> has no annotations, although the existing alert has one.\<close>

theorem debounced_match_not_resolved:
  "filteredAlerts (candidate_cycle slow_rule seconds one_row fresh_store) = []
   \<and> Labels (gAlert active_db1) = db1_labels
   \<and> key db1_labels = ''alertname=disk,host=db1''
   \<and> tick slow_rule seconds \<lparr>query = one_row, fetch = Payload [active_db1]\<rparr> fresh_store
     = (Posted [], 103,
        \<lparr>state = [''alertname=disk,host=db1'' \<mapsto> 101000000000],
          filePath = ''alertstate.json''\<rparr>)
   \<and> tick disk_rule seconds \<lparr>query = one_row, fetch = Payload [active_db2]\<rparr> fresh_store
     = (Posted [first_alert, resolved_db2], 104,
        \<lparr>state = [''alertname=disk,host=db1'' \<mapsto> 101000000000],
          filePath = ''alertstate.json''\<rparr>)
   \<and> gAnnotations active_db2 = [''summary'' \<mapsto> ''full'']
   \<and> Annotations resolved_db2 = Map.empty"
  using tick_slow_active tick_one_row_other alert_fields(5) key_db1
  by (simp add: candidates_one_row active_db2_def resolved_db2_def)

text \<open>The same cycle from a store that holds a record for \<open>db2\<close>.\<close>

lemma query_one_row_known:
  "run_query disk_rule seconds one_row (start_cycle known_db2_store)
     = \<lparr>heap = [first_alert], firingAlerts = [0], filteredAlerts = [], reads = 101,
        store = \<lparr>state = [''alertname=disk,host=db2'' \<mapsto> 50000000000],
                  filePath = ''alertstate.json''\<rparr>\<rparr>"
  by (simp add: run_query_def one_row_def start_cycle_def known_db2_store_def new_def Let_def
      labels_db1 annotations_db1 seconds_def first_alert_def)

lemma filter_one_row_known:
  "filter_loop disk_rule seconds [0]
     \<lparr>heap = [first_alert], firingAlerts = [0], filteredAlerts = [], reads = 101,
      store = \<lparr>state = [''alertname=disk,host=db2'' \<mapsto> 50000000000],
                filePath = ''alertstate.json''\<rparr>\<rparr>
   = \<lparr>heap = [first_alert], firingAlerts = [0], filteredAlerts = [0], reads = 103,
      store = \<lparr>state = [''alertname=disk,host=db2'' \<mapsto> 50000000000,
                          ''alertname=disk,host=db1'' \<mapsto> 101000000000],
                filePath = ''alertstate.json''\<rparr>\<rparr>"
  by (simp add: Let_def alert_fields key_db1 rule_fields MarkActive_def ShouldFire_def
      seconds_def Since_def minDuration_def maxDuration_def)

lemma candidates_one_row_known:
  "candidate_cycle disk_rule seconds one_row known_db2_store
     = \<lparr>heap = [first_alert], firingAlerts = [0], filteredAlerts = [0], reads = 103,
        store = \<lparr>state = [''alertname=disk,host=db2'' \<mapsto> 50000000000,
                            ''alertname=disk,host=db1'' \<mapsto> 101000000000],
                  filePath = ''alertstate.json''\<rparr>\<rparr>"
  by (simp add: candidate_cycle_def query_one_row_known filter_one_row_known Let_def
      del: filter_loop.simps)

lemma tick_one_row_known:
  "tick disk_rule seconds \<lparr>query = one_row, fetch = Payload [active_db2]\<rparr> known_db2_store
     = (Posted [first_alert, resolved_db2], 104,
        \<lparr>state = [''alertname=disk,host=db2'' \<mapsto> 50000000000,
                    ''alertname=disk,host=db1'' \<mapsto> 101000000000]
                   (''alertname=disk,host=db2'' := None),
          filePath = ''alertstate.json''\<rparr>)"
  by (simp add: tick_rows condition_labels_rows candidates_one_row_known alert_fields
      db_labels_differ new_def MarkResolved_def key_db2 seconds_def resolved_db2_def
      active_db2_def)

text \<open>
  One row for \<open>db1\<close>, an existing alert for \<open>db2\<close> with a start instant, and a store that
  holds a record for \<open>db2\<close> when the loop over the existing alerts begins: a batch is
  posted; one alert is appended for \<open>db2\<close>, with its labels, its start instant and the
  reading 103 of the clock as end instant; the record for \<open>db2\<close> is gone afterwards and
  the record for \<open>db1\<close> is still there.
\<close>

theorem resolved_appended_witness:
  "condition_labels disk_rule one_row \<noteq> []
   \<and> gStartsAt active_db2 \<noteq> None
   \<and> filteredAlerts (candidate_cycle disk_rule seconds one_row known_db2_store) = [0]
   \<and> filter (\<lambda>e. Labels (gAlert e) \<notin> set (condition_labels disk_rule one_row)) [active_db2]
     = [active_db2]
   \<and> state (store (candidate_cycle disk_rule seconds one_row known_db2_store))
       (key (Labels (gAlert active_db2))) = Some 50000000000
   \<and> fst (tick disk_rule seconds \<lparr>query = one_row, fetch = Payload [active_db2]\<rparr>
       known_db2_store) = Posted [first_alert, resolved_db2]
   \<and> map (\<lambda>a. (alert a, Some (StartsAt a), EndsAt a)) [resolved_db2]
     = [(gAlert active_db2, gStartsAt active_db2, Some (seconds 103))]
   \<and> state (snd (snd (tick disk_rule seconds
         \<lparr>query = one_row, fetch = Payload [active_db2]\<rparr> known_db2_store)))
       (key (Labels (gAlert active_db2))) = None
   \<and> state (snd (snd (tick disk_rule seconds
         \<lparr>query = one_row, fetch = Payload [active_db2]\<rparr> known_db2_store)))
       (key db1_labels) = Some 101000000000"
proof -
  have ne: "condition_labels disk_rule
      (query \<lparr>query = one_row, fetch = Payload [active_db2]\<rparr>) \<noteq> []"
    by (simp add: condition_labels_rows)
  have f: "fetch \<lparr>query = one_row, fetch = Payload [active_db2]\<rparr> = Payload [active_db2]"
    by simp
  have st: "\<forall>e\<in>set [active_db2]. gStartsAt e \<noteq> None"
    by (simp add: alert_fields)
  show ?thesis
    using resolved_appended [OF ne f st, of seconds known_db2_store] tick_one_row_known
      db_labels_differ
    by (simp add: candidates_one_row_known condition_labels_rows alert_fields key_db1 key_db2)
qed

text \<open>Two rows for \<open>db1\<close>, both candidates, and an existing alert for \<open>db1\<close> that started at second 40: the second alert of the batch has the identity of the existing alert and keeps the start instant of second 101 at which it was built.\<close>

theorem later_duplicate_keeps_fresh_start:
  "tick disk_rule seconds \<lparr>query = two_rows, fetch = Payload [active_db1]\<rparr> fresh_store
     = (Posted [continued_alert, second_alert], 105,
        \<lparr>state = [''alertname=disk,host=db1'' \<mapsto> 102000000000],
          filePath = ''alertstate.json''\<rparr>)
   \<and> filteredAlerts (candidate_cycle disk_rule seconds two_rows fresh_store) = [0, Suc 0]
   \<and> key (Labels (alert second_alert)) = key (Labels (gAlert active_db1))
   \<and> Labels (alert second_alert) = Labels (gAlert active_db1)
   \<and> gStartsAt active_db1 = Some 40000000000
   \<and> StartsAt second_alert = 101000000000
   \<and> EndsAt second_alert = None"
  using tick_two_rows_active
  by (simp add: candidates_two_rows alert_fields second_alert_def)

text \<open>A row for \<open>db2\<close>, then one for \<open>db1\<close>, and an existing alert for \<open>db1\<close>: the second alert of the batch starts when the existing alert started.\<close>

theorem start_time_continuity_witness:
  "tick disk_rule seconds \<lparr>query = mixed_rows, fetch = Payload [active_db1]\<rparr> fresh_store
     = (Posted [other_alert, continued_alert], 106,
        \<lparr>state = [''alertname=disk,host=db2'' \<mapsto> 102000000000,
                    ''alertname=disk,host=db1'' \<mapsto> 104000000000],
          filePath = ''alertstate.json''\<rparr>)
   \<and> active_db1 \<in> set [active_db1]
   \<and> distinct (map (\<lambda>e. Labels (gAlert e)) [active_db1])
   \<and> condition_labels disk_rule mixed_rows ! 1 = Labels (gAlert active_db1)
   \<and> condition_labels disk_rule mixed_rows ! 0 \<noteq> Labels (gAlert active_db1)
   \<and> filteredAlerts (candidate_cycle disk_rule seconds mixed_rows fresh_store) ! 1 = 1
   \<and> gStartsAt active_db1 = Some (StartsAt ([other_alert, continued_alert] ! 1))
   \<and> StartsAt continued_alert = 40000000000"
proof -
  have f: "fetch \<lparr>query = mixed_rows, fetch = Payload [active_db1]\<rparr> = Payload [active_db1]"
    by simp
  have h3: "active_db1 \<in> set [active_db1]" by simp
  have h4: "distinct (map (\<lambda>e. Labels (gAlert e)) [active_db1])" by simp
  have h5: "1 < length (condition_labels disk_rule (query \<lparr>query = mixed_rows, fetch = Payload [active_db1]\<rparr>))"
    by (simp add: condition_labels_mixed)
  have h6: "condition_labels disk_rule (query \<lparr>query = mixed_rows, fetch = Payload [active_db1]\<rparr>) ! 1
      = Labels (gAlert active_db1)"
    by (simp add: condition_labels_mixed alert_fields)
  have h7: "\<forall>i<1. condition_labels disk_rule (query \<lparr>query = mixed_rows, fetch = Payload [active_db1]\<rparr>) ! i
      \<noteq> Labels (gAlert active_db1)"
    using db_labels_differ by (simp add: condition_labels_mixed alert_fields)
  have h8: "1 < length (filteredAlerts (candidate_cycle disk_rule seconds
      (query \<lparr>query = mixed_rows, fetch = Payload [active_db1]\<rparr>) fresh_store))"
    by (simp add: candidates_mixed_rows)
  have h9: "filteredAlerts (candidate_cycle disk_rule seconds
      (query \<lparr>query = mixed_rows, fetch = Payload [active_db1]\<rparr>) fresh_store) ! 1 = 1"
    by (simp add: candidates_mixed_rows)
  show ?thesis
    using start_time_continuity [OF tick_mixed_rows_active f h3 h4 h5 h6 h7 h8 h9]
      tick_mixed_rows_active h6 h7 h9
    by (simp add: continued_alert_def)
qed

text \<open>One condition instance that is not yet past the threshold and no existing alert: the batch is empty and it is posted.\<close>

theorem empty_batch_posted:
  "filteredAlerts (candidate_cycle slow_rule seconds one_row fresh_store) = []
   \<and> tick slow_rule seconds \<lparr>query = one_row, fetch = Payload []\<rparr> fresh_store
     = (Posted [], 103,
        \<lparr>state = [''alertname=disk,host=db1'' \<mapsto> 101000000000],
          filePath = ''alertstate.json''\<rparr>)"
  using tick_slow_alone by (simp add: candidates_one_row)

text \<open>No row: nothing is posted. One row and an existing alert with a start instant: a batch is posted.\<close>

theorem post_gate_witness:
  "condition_labels slow_rule no_rows = []
   \<and> fst (tick slow_rule seconds \<lparr>query = no_rows, fetch = Payload []\<rparr> fresh_store)
       = ReturnNoAlerts
   \<and> condition_labels disk_rule one_row \<noteq> []
   \<and> gStartsAt active_db2 \<noteq> None
   \<and> fst (tick disk_rule seconds \<lparr>query = one_row, fetch = Payload [active_db2]\<rparr> fresh_store)
       = Posted [first_alert, resolved_db2]"
  using post_gate [where r = slow_rule and inp = "\<lparr>query = no_rows, fetch = Payload []\<rparr>"
      and clk = seconds and s = fresh_store]
    post_gate [where r = disk_rule and inp = "\<lparr>query = one_row, fetch = Payload [active_db2]\<rparr>"
      and es = "[active_db2]" and clk = seconds and s = fresh_store]
    tick_one_row_other
  by (simp add: condition_labels_rows alert_fields tick_no_rows)

end
